theory Spec2Isabelle
  imports Complex_Main "HOL-Library.Word"
begin

unbundle bit_operations_syntax

section \<open>Shared conventions\<close>

text \<open>
  JavaScript exceptions are values: a function that can throw returns \<open>error + 'a\<close>,
  with \<open>Inl\<close> for the exception. \<open>IllegalState\<close> is the \<open>IllegalStateException\<close> of
  utils/exception.js. \<open>NonTermination\<close> stands for a loop of the source that has no exit
  at the given input. Timestamps are integers (milliseconds); \<open>NonFinite\<close> marks the points
  where the source would compute a timestamp from \<open>Infinity\<close>, \<open>NaN\<close> or \<open>undefined\<close>, which
  this development does not follow further.
\<close>

datatype error = TypeError | RangeError | IllegalState | NonTermination | NonFinite

type_synonym byte = "8 word"

section \<open>Numbers\<close>

text \<open>
  A JavaScript Number is an IEEE 754 double. The finite doubles are the rationals
  \<open>m * 2 ^ e\<close> with \<open>\<bar>m\<bar> < 2 ^ 53\<close> and \<open>- 1074 \<le> e \<le> 971\<close>; every arithmetic operation
  returns the double nearest to the exact result, the one with the even \<open>m\<close> when two are
  equally near, and \<open>Infinity\<close> from \<open>2 ^ 1024 - 2 ^ 970\<close> on, that is when \<open>e\<close> would exceed
  971 (\<open>9007199254740992\<close> is \<open>2 ^ 53\<close>). A \<open>rounding\<close> maps the exact
  result of an operation to the Number that the operation returns, \<open>None\<close> when that is
  not finite. \<open>to_double\<close> is the rounding of the language; \<open>exact\<close> rounds nothing and is
  used to tell what is an effect of rounding. Integer timestamps are kept as integers:
  sums and differences of integers below \<open>2 ^ 53\<close> are exact.
\<close>

type_synonym rounding = "rat \<Rightarrow> rat option"

definition exact :: rounding where
  "exact x = Some x"

definition pow2 :: "int \<Rightarrow> rat" where
  "pow2 k = (if 0 \<le> k then 2 ^ nat k else 1 / 2 ^ nat (- k))"

text \<open>
  \<open>ilog2_int n\<close> is the integer \<open>k\<close> with \<open>2 ^ k \<le> n < 2 ^ (k + 1)\<close> for a positive integer
  \<open>n\<close>, and \<open>ilog2 a\<close> the same for a positive rational \<open>a\<close>.
\<close>

function ilog2_int :: "int \<Rightarrow> int" where
  "ilog2_int n = (if n \<le> 1 then 0 else 1 + ilog2_int (n div 2))"
  by pat_completeness auto

termination
  by (relation "measure nat") auto

declare ilog2_int.simps [simp del]

definition ilog2 :: "rat \<Rightarrow> int" where
  "ilog2 a =
     (if 1 \<le> a then ilog2_int \<lfloor>a\<rfloor>
      else (let k = ilog2_int \<lfloor>1 / a\<rfloor> + 1
            in if pow2 (1 - k) \<le> a then 1 - k else - k))"

definition round_half_even :: "rat \<Rightarrow> int" where
  "round_half_even y =
     (let f = \<lfloor>y\<rfloor>; r = y - of_int f
      in if r < 1 / 2 then f else if 1 / 2 < r then f + 1 else if even f then f else f + 1)"

definition to_double :: rounding where
  "to_double x =
     (if x = 0 then Some 0
      else
        (let a = \<bar>x\<bar>;
             e = max (ilog2 a - 52) (- 1074);
             m = round_half_even (a / pow2 e)
         in if 971 < e \<or> (e = 971 \<and> 9007199254740992 \<le> m) then None
            else Some ((if x < 0 then - 1 else 1) * (of_int m * pow2 e))))"


text \<open>
  Where the program stores a Number without computing on with it, the sign of an infinite
  value is kept: \<open>rounded x\<close> is the Number that an operation with the exact result \<open>x\<close>
  returns. \<open>Math.floor\<close> leaves an infinite value as it is.
\<close>

datatype number = Finite rat | PlusInfinity | MinusInfinity

definition rounded :: "rat \<Rightarrow> number" where
  "rounded x =
     (case to_double x of
        Some v \<Rightarrow> Finite v
      | None \<Rightarrow> if 0 < x then PlusInfinity else MinusInfinity)"

definition js_floor :: "number \<Rightarrow> number" where
  "js_floor x = (case x of Finite v \<Rightarrow> Finite (of_int \<lfloor>v\<rfloor>) | _ \<Rightarrow> x)"

text \<open>\<open>x > 0\<close>, \<open>x / y\<close> and \<open>x + y\<close> for a Number \<open>x\<close> and a finite \<open>y\<close>, positive where it divides.\<close>

definition number_positive :: "number \<Rightarrow> bool" where
  "number_positive x = (case x of Finite v \<Rightarrow> 0 < v | PlusInfinity \<Rightarrow> True | MinusInfinity \<Rightarrow> False)"

definition number_div :: "number \<Rightarrow> rat \<Rightarrow> number" where
  "number_div x y = (case x of Finite v \<Rightarrow> rounded (v / y) | _ \<Rightarrow> x)"



section \<open>Sample and segment bookkeeping (media-segment-info.js)\<close>

text \<open>
  Reading \<open>list[i]\<close> in JavaScript gives \<open>undefined\<close> outside \<open>0 .. length - 1\<close>
  (also at a negative index); \<open>None\<close> stands for \<open>undefined\<close>. Reading a property
  of \<open>undefined\<close> or \<open>null\<close> throws a TypeError.
\<close>

definition js_index :: "'a list \<Rightarrow> int \<Rightarrow> 'a option" where
  "js_index xs i = (if 0 \<le> i \<and> i < int (length xs) then Some (xs ! nat i) else None)"

text \<open>Class \<open>SampleInfo\<close>; \<open>fileposition\<close> starts as \<open>null\<close>.\<close>

record SampleInfo =
  si_dts :: int
  si_pts :: int
  si_duration :: int
  si_originalDts :: int
  isSyncPoint :: bool
  fileposition :: "int option"

definition new_SampleInfo :: "int \<Rightarrow> int \<Rightarrow> int \<Rightarrow> int \<Rightarrow> bool \<Rightarrow> SampleInfo" where
  "new_SampleInfo d p dur od isSync =
     \<lparr>si_dts = d, si_pts = p, si_duration = dur, si_originalDts = od,
      isSyncPoint = isSync, fileposition = None\<rparr>"

text \<open>Class \<open>MediaSegmentInfo\<close>; \<open>firstSample\<close> and \<open>lastSample\<close> start as \<open>null\<close>.\<close>

record MediaSegmentInfo =
  beginDts :: int
  endDts :: int
  beginPts :: int
  endPts :: int
  originalBeginDts :: int
  originalEndDts :: int
  syncPoints :: "SampleInfo list"
  firstSample :: "SampleInfo option"
  lastSample :: "SampleInfo option"

definition new_MediaSegmentInfo :: MediaSegmentInfo where
  "new_MediaSegmentInfo =
     \<lparr>beginDts = 0, endDts = 0, beginPts = 0, endPts = 0, originalBeginDts = 0,
      originalEndDts = 0, syncPoints = [], firstSample = None, lastSample = None\<rparr>"

definition appendSyncPoint :: "MediaSegmentInfo \<Rightarrow> SampleInfo \<Rightarrow> MediaSegmentInfo" where
  "appendSyncPoint info sampleInfo =
     info\<lparr>syncPoints := syncPoints info @ [sampleInfo\<lparr>isSyncPoint := True\<rparr>]\<rparr>"

subsection \<open>Class \<open>IDRSampleList\<close>\<close>

text \<open>
  The state of an \<open>IDRSampleList\<close> is its \<open>_list\<close>. In \<open>appendArray\<close> the local
  \<open>list\<close> is bound to the array before \<open>this.clear()\<close> replaces \<open>this._list\<close> by a
  fresh empty array, and the push goes to that local: after a backward jump the new
  \<open>_list\<close> is empty.
\<close>

definition idr_appendArray :: "SampleInfo list \<Rightarrow> SampleInfo list \<Rightarrow> SampleInfo list" where
  "idr_appendArray list sps =
     (if length sps = 0 then list
      else if length list > 0 \<and> si_originalDts (sps ! 0) < si_originalDts (list ! (length list - 1))
           then []
           else list @ sps)"

text \<open>
  Outcome of one iteration of a binary-search loop: \<open>Hit\<close> is \<open>idx = mid; break\<close>,
  \<open>GoRight\<close> is \<open>lbound = mid + 1\<close>, \<open>GoLeft\<close> is \<open>ubound = mid - 1\<close>.
\<close>

datatype probe = Hit | GoRight | GoLeft

text \<open>
  The body of the \<open>while\<close> loop of \<open>getLastSyncPointBeforeDts\<close> at \<open>mid\<close>:
  \<open>if (mid === last || (dts >= list[mid].dts && dts < list[mid + 1].dts)) ... else if
  (list[mid].dts < dts) ... else ...\<close>, with \<open>||\<close> and \<open>&&\<close> evaluated left to right.
\<close>

definition idr_probe :: "SampleInfo list \<Rightarrow> int \<Rightarrow> int \<Rightarrow> error + probe" where
  "idr_probe list d mid =
     (let last = int (length list) - 1
      in if mid = last then Inr Hit
         else (case js_index list mid of
                 None \<Rightarrow> Inl TypeError
               | Some m \<Rightarrow>
                   if d \<ge> si_dts m then
                     (case js_index list (mid + 1) of
                        None \<Rightarrow> Inl TypeError
                      | Some m1 \<Rightarrow>
                          if d < si_dts m1 then Inr Hit
                          else if si_dts m < d then Inr GoRight else Inr GoLeft)
                   else if si_dts m < d then Inr GoRight else Inr GoLeft))"

text \<open>
  The loop itself, with the local variables \<open>idx\<close>, \<open>lbound\<close> and \<open>ubound\<close> as
  arguments; it returns the final \<open>idx\<close>.
\<close>

function idr_search_loop :: "SampleInfo list \<Rightarrow> int \<Rightarrow> int \<Rightarrow> int \<Rightarrow> int \<Rightarrow> error + int" where
  "idr_search_loop list d idx lbound ubound =
     (if lbound \<le> ubound then
        (let mid = lbound + (ubound - lbound) div 2
         in case idr_probe list d mid of
              Inl e \<Rightarrow> Inl e
            | Inr Hit \<Rightarrow> Inr mid
            | Inr GoRight \<Rightarrow> idr_search_loop list d idx (mid + 1) ubound
            | Inr GoLeft \<Rightarrow> idr_search_loop list d idx lbound (mid - 1))
      else Inr idx)"
  by pat_completeness auto
termination
  by (relation "measure (\<lambda>(list, d, idx, lbound, ubound). nat (ubound - lbound + 1))") auto

declare idr_search_loop.simps [simp del]

text \<open>
  \<open>getLastSyncPointBeforeDts(dts)\<close>: \<open>Inr None\<close> is the \<open>null\<close> returned for an empty
  list (and would be the \<open>undefined\<close> of an out-of-range final read).
\<close>

definition getLastSyncPointBeforeDts :: "SampleInfo list \<Rightarrow> int \<Rightarrow> error + SampleInfo option" where
  "getLastSyncPointBeforeDts list d =
     (if length list = 0 then Inr None
      else
        (let last = int (length list) - 1;
             ubound = last
         in case (if d < si_dts (list ! 0) then idr_search_loop list d 0 (ubound + 1) ubound
                  else idr_search_loop list d 0 0 ubound) of
              Inl e \<Rightarrow> Inl e
            | Inr idx \<Rightarrow> Inr (js_index list idx)))"

subsection \<open>Class \<open>MediaSegmentInfoList\<close>\<close>

record MediaSegmentInfoList =
  msil_type :: string
  msil_list :: "MediaSegmentInfo list"
  lastAppendLocation :: int

definition new_MediaSegmentInfoList :: "string \<Rightarrow> MediaSegmentInfoList" where
  "new_MediaSegmentInfoList ty = \<lparr>msil_type = ty, msil_list = [], lastAppendLocation = -1\<rparr>"

definition isEmpty :: "MediaSegmentInfoList \<Rightarrow> bool" where
  "isEmpty m = (length (msil_list m) = 0)"

definition msil_clear :: "MediaSegmentInfoList \<Rightarrow> MediaSegmentInfoList" where
  "msil_clear m = m\<lparr>msil_list := [], lastAppendLocation := -1\<rparr>"

text \<open>
  \<open>list[i].lastSample.originalDts\<close>: a TypeError when \<open>list[i]\<close> is \<open>undefined\<close> or
  its \<open>lastSample\<close> is \<open>null\<close>.
\<close>

definition lastSample_originalDts :: "MediaSegmentInfo list \<Rightarrow> int \<Rightarrow> error + int" where
  "lastSample_originalDts list i =
     (case js_index list i of
        None \<Rightarrow> Inl TypeError
      | Some seg \<Rightarrow> (case lastSample seg of None \<Rightarrow> Inl TypeError | Some s \<Rightarrow> Inr (si_originalDts s)))"

text \<open>
  The body of the \<open>while\<close> loop of \<open>_searchNearestSegmentBefore\<close> at \<open>mid\<close>:
  \<open>if (mid === last || (originalBeginDts > list[mid].lastSample.originalDts &&
  originalBeginDts < list[mid + 1].originalBeginDts)) ... else if
  (list[mid].originalBeginDts < originalBeginDts) ... else ...\<close>.
\<close>

definition segment_probe :: "MediaSegmentInfo list \<Rightarrow> int \<Rightarrow> int \<Rightarrow> error + probe" where
  "segment_probe list obd mid =
     (let last = int (length list) - 1
      in if mid = last then Inr Hit
         else (case lastSample_originalDts list mid of
                 Inl e \<Rightarrow> Inl e
               | Inr lo \<Rightarrow>
                   (case js_index list mid of
                      None \<Rightarrow> Inl TypeError
                    | Some m \<Rightarrow>
                        if obd > lo then
                          (case js_index list (mid + 1) of
                             None \<Rightarrow> Inl TypeError
                           | Some m1 \<Rightarrow>
                               if obd < originalBeginDts m1 then Inr Hit
                               else if originalBeginDts m < obd then Inr GoRight else Inr GoLeft)
                        else if originalBeginDts m < obd then Inr GoRight else Inr GoLeft)))"

function segment_search_loop :: "MediaSegmentInfo list \<Rightarrow> int \<Rightarrow> int \<Rightarrow> int \<Rightarrow> int \<Rightarrow> error + int" where
  "segment_search_loop list obd idx lbound ubound =
     (if lbound \<le> ubound then
        (let mid = lbound + (ubound - lbound) div 2
         in case segment_probe list obd mid of
              Inl e \<Rightarrow> Inl e
            | Inr Hit \<Rightarrow> Inr mid
            | Inr GoRight \<Rightarrow> segment_search_loop list obd idx (mid + 1) ubound
            | Inr GoLeft \<Rightarrow> segment_search_loop list obd idx lbound (mid - 1))
      else Inr idx)"
  by pat_completeness auto
termination
  by (relation "measure (\<lambda>(list, obd, idx, lbound, ubound). nat (ubound - lbound + 1))") auto

declare segment_search_loop.simps [simp del]

definition searchNearestSegmentBefore :: "MediaSegmentInfoList \<Rightarrow> int \<Rightarrow> error + int" where
  "searchNearestSegmentBefore m obd =
     (let list = msil_list m in
      if length list = 0 then Inr (- 2)
      else if obd < originalBeginDts (list ! 0) then Inr (- 1)
      else segment_search_loop list obd 0 0 (int (length list) - 1))"

definition searchNearestSegmentAfter :: "MediaSegmentInfoList \<Rightarrow> int \<Rightarrow> error + int" where
  "searchNearestSegmentAfter m obd =
     (case searchNearestSegmentBefore m obd of Inl e \<Rightarrow> Inl e | Inr i \<Rightarrow> Inr (i + 1))"

text \<open>
  \<open>Array.prototype.splice(insertIdx, 0, msi)\<close>: a start beyond the length is clamped to
  the length, a negative start counts from the end and is clamped to 0.
\<close>

definition splice_insert :: "'a list \<Rightarrow> int \<Rightarrow> 'a \<Rightarrow> 'a list" where
  "splice_insert xs i x =
     (let n = int (length xs);
          start = (if i < 0 then max (n + i) 0 else min i n)
      in take (nat start) xs @ [x] @ drop (nat start) xs)"

text \<open>
  \<open>append(mediaSegmentInfo)\<close>. The cached-location test reads
  \<open>list[lastAppendIdx].lastSample.originalDts\<close> only after
  \<open>lastAppendIdx !== -1 && lastAppendIdx < list.length\<close>.
\<close>

definition msil_append :: "MediaSegmentInfoList \<Rightarrow> MediaSegmentInfo \<Rightarrow> error + MediaSegmentInfoList" where
  "msil_append m msi =
     (let list = msil_list m;
          lastAppendIdx = lastAppendLocation m;
          n = int (length list);
          fallback = (if length list > 0
                      then (case searchNearestSegmentBefore m (originalBeginDts msi) of
                              Inl e \<Rightarrow> Inl e | Inr i \<Rightarrow> Inr (i + 1))
                      else Inr 0);
          finish = (\<lambda>insertIdx. m\<lparr>msil_list := splice_insert list insertIdx msi,
                                    lastAppendLocation := insertIdx\<rparr>)
      in if lastAppendIdx \<noteq> - 1 \<and> lastAppendIdx < n then
           (case lastSample_originalDts list lastAppendIdx of
              Inl e \<Rightarrow> Inl e
            | Inr lo \<Rightarrow>
                if originalBeginDts msi \<ge> lo \<and>
                   (lastAppendIdx = n - 1 \<or>
                    (lastAppendIdx < n - 1 \<and>
                     (case js_index list (lastAppendIdx + 1) of
                        None \<Rightarrow> False
                      | Some nx \<Rightarrow> originalBeginDts msi < originalBeginDts nx)))
                then Inr (finish (lastAppendIdx + 1))
                else (case fallback of Inl e \<Rightarrow> Inl e | Inr i \<Rightarrow> Inr (finish i)))
         else (case fallback of Inl e \<Rightarrow> Inl e | Inr i \<Rightarrow> Inr (finish i)))"

text \<open>\<open>getLastSegmentBefore\<close>: \<open>Inr None\<close> is the returned \<open>null\<close>.\<close>

definition getLastSegmentBefore :: "MediaSegmentInfoList \<Rightarrow> int \<Rightarrow> error + MediaSegmentInfo option" where
  "getLastSegmentBefore m obd =
     (case searchNearestSegmentBefore m obd of
        Inl e \<Rightarrow> Inl e
      | Inr idx \<Rightarrow> if idx \<ge> 0 then Inr (js_index (msil_list m) idx) else Inr None)"

definition getLastSampleBefore :: "MediaSegmentInfoList \<Rightarrow> int \<Rightarrow> error + SampleInfo option" where
  "getLastSampleBefore m obd =
     (case getLastSegmentBefore m obd of
        Inl e \<Rightarrow> Inl e
      | Inr None \<Rightarrow> Inr None
      | Inr (Some segment) \<Rightarrow> Inr (lastSample segment))"

text \<open>
  The \<open>while\<close> loop of \<open>getLastSyncPointBefore\<close>:
  \<open>while (syncPoints.length === 0 && segmentIdx > 0)\<close>.
\<close>

function syncpoint_back_loop :: "MediaSegmentInfo list \<Rightarrow> SampleInfo list \<Rightarrow> int \<Rightarrow> error + SampleInfo list" where
  "syncpoint_back_loop list sps segmentIdx =
     (if length sps = 0 \<and> segmentIdx > 0 then
        (case js_index list (segmentIdx - 1) of
           None \<Rightarrow> Inl TypeError
         | Some seg \<Rightarrow> syncpoint_back_loop list (syncPoints seg) (segmentIdx - 1))
      else Inr sps)"
  by pat_completeness auto
termination
  by (relation "measure (\<lambda>(list, sps, segmentIdx). nat segmentIdx)") auto

declare syncpoint_back_loop.simps [simp del]

definition getLastSyncPointBefore :: "MediaSegmentInfoList \<Rightarrow> int \<Rightarrow> error + SampleInfo option" where
  "getLastSyncPointBefore m obd =
     (case searchNearestSegmentBefore m obd of
        Inl e \<Rightarrow> Inl e
      | Inr segmentIdx \<Rightarrow>
          (case js_index (msil_list m) segmentIdx of
             None \<Rightarrow> Inl TypeError
           | Some seg \<Rightarrow>
               (case syncpoint_back_loop (msil_list m) (syncPoints seg) segmentIdx of
                  Inl e \<Rightarrow> Inl e
                | Inr sps \<Rightarrow>
                    if length sps > 0 then Inr (Some (sps ! (length sps - 1))) else Inr None)))"

text \<open>
  Every segment of the list has its \<open>lastSample\<close> set (the remuxer sets it before it
  appends a segment).
\<close>

definition all_lastSample :: "MediaSegmentInfo list \<Rightarrow> bool" where
  "all_lastSample list = list_all (\<lambda>seg. lastSample seg \<noteq> None) list"

subsection \<open>A one-segment list used as a concrete instance\<close>

definition ex_sample :: SampleInfo where
  "ex_sample = \<lparr>si_dts = 0, si_pts = 0, si_duration = 40, si_originalDts = 10,
                 isSyncPoint = True, fileposition = None\<rparr>"

definition ex_segment :: MediaSegmentInfo where
  "ex_segment = \<lparr>beginDts = 0, endDts = 40, beginPts = 0, endPts = 40, originalBeginDts = 10,
                  originalEndDts = 50, syncPoints = [ex_sample], firstSample = Some ex_sample,
                  lastSample = Some ex_sample\<rparr>"

definition ex_segment_list :: MediaSegmentInfoList where
  "ex_segment_list = \<lparr>msil_type = ''video'', msil_list = [ex_segment], lastAppendLocation = 0\<rparr>"


text \<open>The \<open>dts\<close> of the element at an index, and the index the lookup is to find.\<close>

definition dts_at :: "SampleInfo list \<Rightarrow> int \<Rightarrow> int" where
  "dts_at list i = si_dts (list ! nat i)"

definition answer_at :: "SampleInfo list \<Rightarrow> int \<Rightarrow> int \<Rightarrow> bool" where
  "answer_at list d a \<longleftrightarrow>
     0 \<le> a \<and> a \<le> int (length list) - 1 \<and> dts_at list a \<le> d \<and>
     (a = int (length list) - 1 \<or> d < dts_at list (a + 1))"

definition idr_sample :: "int \<Rightarrow> SampleInfo" where
  "idr_sample d = new_SampleInfo d d 40 d True"

definition ex_idr_list :: "SampleInfo list" where
  "ex_idr_list = [idr_sample 0, idr_sample 10]"

section \<open>I/O controller (io-controller.js, \<open>IOController.pause\<close>)\<close>

text \<open>\<open>LoaderStatus\<close> and the state of a \<open>BaseLoader\<close> (loader.js).\<close>

datatype LoaderStatus = kIdle | kConnecting | kBuffering | kError | kComplete

record Loader =
  status :: LoaderStatus

definition loader_isWorking :: "Loader \<Rightarrow> bool" where
  "loader_isWorking l = (status l = kConnecting \<or> status l = kBuffering)"

text \<open>\<open>_currentRange\<close> is \<open>{from, to}\<close>; it is \<open>null\<close> until \<open>open\<close> sets it.\<close>

record Range =
  range_from :: int
  range_to :: int

text \<open>
  The fields of \<open>IOController\<close> that \<open>pause\<close>, \<open>isWorking\<close> and \<open>isPaused\<close> read or
  write. \<open>loader\<close> is \<open>null\<close> after \<open>destroy\<close>.
\<close>

record IOController =
  loader :: "Loader option"
  stashUsed :: int
  stashByteStart :: int
  currentRange :: "Range option"
  paused :: bool
  resumeFrom :: int

text \<open>\<open>isWorking()\<close>: \<open>this._loader && this._loader.isWorking() && !this._paused\<close>.\<close>

definition ioc_isWorking :: "IOController \<Rightarrow> bool" where
  "ioc_isWorking c = (case loader c of None \<Rightarrow> False | Some l \<Rightarrow> loader_isWorking l \<and> \<not> paused c)"

text \<open>
  \<open>pause()\<close>. \<open>BaseLoader.abort\<close> is abstract; the \<open>abort\<close> of the concrete loader is
  the parameter \<open>abort\<close>. Reading or writing \<open>this._currentRange.to\<close> throws a TypeError
  while \<open>_currentRange\<close> is \<open>null\<close>.
\<close>

definition pause :: "(Loader \<Rightarrow> Loader) \<Rightarrow> IOController \<Rightarrow> error + IOController" where
  "pause abort c =
     (if ioc_isWorking c then
        (let c1 = c\<lparr>loader := map_option abort (loader c)\<rparr>
         in case currentRange c1 of
              None \<Rightarrow> Inl TypeError
            | Some r \<Rightarrow>
                (let c2 = (if stashUsed c1 \<noteq> 0
                           then c1\<lparr>resumeFrom := stashByteStart c1,
                                   currentRange := Some (r\<lparr>range_to := stashByteStart c1 - 1\<rparr>)\<rparr>
                           else c1\<lparr>resumeFrom := range_to r + 1\<rparr>)
                 in Inr (c2\<lparr>stashUsed := 0, stashByteStart := 0, paused := True\<rparr>)))
      else Inr c)"

subsection \<open>A working controller with a non-empty stash, as a concrete instance\<close>

definition ex_abort :: "Loader \<Rightarrow> Loader" where
  "ex_abort l = l\<lparr>status := kComplete\<rparr>"

definition ex_controller :: "int \<Rightarrow> IOController" where
  "ex_controller used =
     \<lparr>loader = Some \<lparr>status = kBuffering\<rparr>, stashUsed = used, stashByteStart = 5000,
      currentRange = Some \<lparr>range_from = 0, range_to = 5999\<rparr>, paused = False, resumeFrom = 0\<rparr>"

section \<open>MP4 box generator (mp4-generator.js, \<open>MP4.box\<close>)\<close>

text \<open>
  \<open>TypedArray.prototype.set(source, offset)\<close>: copies \<open>source\<close> into the target
  starting at \<open>offset\<close>; throws a RangeError when the source does not fit.
\<close>

definition typed_array_set :: "byte list \<Rightarrow> byte list \<Rightarrow> nat \<Rightarrow> error + byte list" where
  "typed_array_set target source offset =
     (if offset + length source > length target then Inl RangeError
      else Inr (take offset target @ source @ drop (offset + length source) target))"

text \<open>
  \<open>(size >>> k) & 0xFF\<close>: the unsigned shift first converts its operand to an unsigned
  32-bit integer (\<open>ToUint32\<close>), so the number is taken modulo \<open>2 ^ 32\<close>.
\<close>

definition size_byte :: "nat \<Rightarrow> nat \<Rightarrow> byte" where
  "size_byte sz k = ucast (drop_bit k (word_of_nat sz :: 32 word) AND 0xFF)"

text \<open>The first loop of \<open>box\<close>: \<open>size += datas[i].byteLength\<close>, starting from 8.\<close>

fun box_size :: "nat \<Rightarrow> byte list list \<Rightarrow> nat" where
  "box_size sz [] = sz"
| "box_size sz (d # datas) = box_size (sz + length d) datas"

text \<open>The second loop: \<open>result.set(datas[i], offset); offset += datas[i].byteLength\<close>.\<close>

fun box_fill :: "byte list \<Rightarrow> byte list list \<Rightarrow> nat \<Rightarrow> error + byte list" where
  "box_fill result [] offset = Inr result"
| "box_fill result (d # datas) offset =
     (case typed_array_set result d offset of
        Inl e \<Rightarrow> Inl e
      | Inr result' \<Rightarrow> box_fill result' datas (offset + length d))"

text \<open>
  \<open>MP4.box(type, ...datas)\<close>. \<open>new Uint8Array(size)\<close> is zero-filled; the four indexed
  writes are in range because \<open>size \<ge> 8\<close>.
\<close>

definition box :: "byte list \<Rightarrow> byte list list \<Rightarrow> error + byte list" where
  "box ty datas =
     (let sz = box_size 8 datas;
          result = replicate sz (0 :: byte);
          result = result[0 := size_byte sz 24];
          result = result[1 := size_byte sz 16];
          result = result[2 := size_byte sz 8];
          result = result[3 := size_byte sz 0]
      in case typed_array_set result ty 4 of
           Inl e \<Rightarrow> Inl e
         | Inr result' \<Rightarrow> box_fill result' datas 8)"

text \<open>Reading a big-endian unsigned 32-bit integer from four bytes.\<close>

definition read_u32be :: "byte list \<Rightarrow> nat" where
  "read_u32be bs = unat (bs ! 0) * 2 ^ 24 + unat (bs ! 1) * 2 ^ 16 + unat (bs ! 2) * 2 ^ 8 + unat (bs ! 3)"


section \<open>Media information (media-info.js, class \<open>MediaInfo\<close>)\<close>

text \<open>
  JavaScript numbers that need not be integers (values decoded from the script tag, rates,
  frame rates) are finite rationals; what the demuxer computes from them is rounded as in
  section Numbers, and a value that it computes and stores is a \<open>number\<close>, which may be
  infinite. A field that is \<open>null\<close> or \<open>undefined\<close> is \<open>None\<close>.
\<close>

text \<open>
  The \<open>onMetaData\<close> object of a script tag, as the demuxer reads it: a field is \<open>Some\<close>
  when it is present with the type the demuxer tests for (\<open>typeof\<close> \<open>'boolean'\<close> or
  \<open>'number'\<close>). \<open>keyframes\<close> is tested with \<open>typeof ... === 'object'\<close>, which also holds
  for \<open>null\<close>: \<open>NotAnObject\<close> fails the test, \<open>NoTimes\<close> passes it but has no \<open>times\<close>
  array to read (\<open>null\<close>, or an object without one), \<open>Keyframes times filepositions\<close> is
  the regular case.
\<close>

datatype keyframes_value = NotAnObject | NoTimes | Keyframes "rat list" "rat list"

record OnMetaData =
  md_hasAudio :: "bool option"
  md_hasVideo :: "bool option"
  audiodatarate :: "rat option"
  videodatarate :: "rat option"
  md_width :: "rat option"
  md_height :: "rat option"
  md_duration :: "rat option"
  framerate :: "rat option"
  keyframes :: keyframes_value

record KeyframesIndex =
  times :: "number list"
  filepositions :: "rat option list"

record MediaInfo =
  mimeType :: "string option"
  mi_duration :: "number option"
  mi_hasAudio :: "bool option"
  mi_hasVideo :: "bool option"
  audioCodec :: "string option"
  videoCodec :: "string option"
  audioDataRate :: "rat option"
  videoDataRate :: "rat option"
  audioSampleRate :: "rat option"
  audioChannelCount :: "rat option"
  mi_width :: "rat option"
  mi_height :: "rat option"
  mi_fps :: "number option"
  mi_profile :: "string option"
  mi_level :: "string option"
  refFrames :: "rat option"
  mi_chromaFormat :: "string option"
  sarNum :: "rat option"
  sarDen :: "rat option"
  mi_metadata :: "OnMetaData option"
  hasKeyframesIndex :: "bool option"
  keyframesIndex :: "KeyframesIndex option"

text \<open>
  The constructor. The fields \<open>segments\<close> and \<open>segmentCount\<close> of the class are left out:
  the demuxer neither reads nor writes them.
\<close>

definition new_MediaInfo :: MediaInfo where
  "new_MediaInfo =
     \<lparr>mimeType = None, mi_duration = None, mi_hasAudio = None, mi_hasVideo = None,
      audioCodec = None, videoCodec = None, audioDataRate = None, videoDataRate = None,
      audioSampleRate = None, audioChannelCount = None, mi_width = None, mi_height = None,
      mi_fps = None, mi_profile = None, mi_level = None, refFrames = None,
      mi_chromaFormat = None, sarNum = None, sarDen = None, mi_metadata = None,
      hasKeyframesIndex = None, keyframesIndex = None\<rparr>"

definition isComplete :: "MediaInfo \<Rightarrow> bool" where
  "isComplete mi =
     (let audioInfoComplete =
            (mi_hasAudio mi = Some False \<or>
             (mi_hasAudio mi = Some True \<and> audioCodec mi \<noteq> None \<and> audioSampleRate mi \<noteq> None
              \<and> audioChannelCount mi \<noteq> None));
          videoInfoComplete =
            (mi_hasVideo mi = Some False \<or>
             (mi_hasVideo mi = Some True \<and> videoCodec mi \<noteq> None \<and> mi_width mi \<noteq> None
              \<and> mi_height mi \<noteq> None \<and> mi_fps mi \<noteq> None \<and> mi_profile mi \<noteq> None
              \<and> mi_level mi \<noteq> None \<and> refFrames mi \<noteq> None \<and> mi_chromaFormat mi \<noteq> None
              \<and> sarNum mi \<noteq> None \<and> sarDen mi \<noteq> None))
      in mimeType mi \<noteq> None \<and> mi_duration mi \<noteq> None \<and> mi_metadata mi \<noteq> None
         \<and> hasKeyframesIndex mi \<noteq> None \<and> audioInfoComplete \<and> videoInfoComplete)"

section \<open>FLV demuxer: chunk parsing (flv-demuxer.js, \<open>FLVDemuxer.parseChunks\<close>)\<close>

text \<open>
  A byte of a \<open>Uint8Array\<close> used in a bitwise expression; an index past the end reads
  \<open>undefined\<close>, which the bitwise operators convert to 0.
\<close>

definition js_byte :: "byte list \<Rightarrow> nat \<Rightarrow> byte" where
  "js_byte data i = (if i < length data then data ! i else 0)"

text \<open>
  \<open>ReadBig32(array, index)\<close>: the result of \<open>|\<close> is a signed 32-bit integer.
\<close>

definition ReadBig32 :: "byte list \<Rightarrow> nat \<Rightarrow> int" where
  "ReadBig32 array index =
     sint (push_bit 24 (ucast (js_byte array index) :: 32 word)
           OR push_bit 16 (ucast (js_byte array (index + 1)))
           OR push_bit 8 (ucast (js_byte array (index + 2)))
           OR ucast (js_byte array (index + 3)))"

record ProbeData =
  pd_dataOffset :: nat
  hasAudioTrack :: bool
  hasVideoTrack :: bool

text \<open>\<open>FLVDemuxer.probe(buffer)\<close>: \<open>None\<close> is the mismatch result \<open>{match: false}\<close>.\<close>

definition probe :: "byte list \<Rightarrow> ProbeData option" where
  "probe data =
     (if js_byte data 0 \<noteq> 0x46 \<or> js_byte data 1 \<noteq> 0x4C \<or> js_byte data 2 \<noteq> 0x56
         \<or> js_byte data 3 \<noteq> 0x01
      then None
      else
        (let hasAudio = (drop_bit 2 (js_byte data 4 AND 4) \<noteq> 0);
             hasVideo = (js_byte data 4 AND 1 \<noteq> 0);
             offset = ReadBig32 data 5
         in if offset < 9 then None
            else Some \<lparr>pd_dataOffset = nat offset, hasAudioTrack = hasAudio,
                       hasVideoTrack = hasVideo\<rparr>))"

text \<open>Results of the audio and video sub-parsers and the track metadata objects.\<close>

record FrameRate =
  fixed :: bool
  fr_fps :: number
  fps_num :: number
  fps_den :: rat



text \<open>
  The audio metadata object \<open>meta\<close>; the fields set only by a configuration are \<open>None\<close>
  (\<open>undefined\<close>) before. \<open>am_refSampleDuration\<close> is \<open>None\<close> also when the value computed for
  it is not finite.
\<close>

record AudioMeta =
  am_id :: nat
  am_timescale :: rat
  am_duration :: number
  am_audioSampleRate :: rat
  am_channelCount :: rat
  am_codec :: "string option"
  am_originalCodec :: "string option"
  am_config :: "nat list option"
  am_refSampleDuration :: "rat option"


record VideoMeta =
  vm_id :: nat
  vm_timescale :: rat
  vm_duration :: number
  codecWidth :: "rat option"
  codecHeight :: "rat option"
  presentWidth :: "rat option"
  presentHeight :: "rat option"
  vm_profile :: "string option"
  vm_level :: "string option"
  bitDepth :: "rat option"
  vm_chromaFormat :: "rat option"
  sarRatio :: "(rat \<times> rat) option"
  frameRate :: "FrameRate option"
  vm_refSampleDuration :: "rat option"
  vm_codec :: "string option"
  avcc :: "byte list option"

text \<open>
  The result of the external \<open>AMF.parseScriptData\<close>: whether the object has an
  \<open>onMetaData\<close> property and what it holds (\<open>InvalidMeta\<close> is \<open>null\<close> or a value that is
  not an object), and the number of its other keys.
\<close>

datatype onMetaData_value = InvalidMeta | Meta OnMetaData

record ScriptData =
  sd_onMetaData :: "onMetaData_value option"
  sd_other_keys :: nat

text \<open>
  What the demuxer hands to its callbacks, in order. \<open>EvMediaInfo\<close> records the media
  info as it is at the moment \<open>_onMediaInfo\<close> is called.
\<close>

datatype event =
    EvMediaInfo MediaInfo
  | EvTrackMetadata string
  | EvDataAvailable
  | EvError string
  | EvMetaDataArrived
  | EvScriptDataArrived

text \<open>
  The state of an \<open>FLVDemuxer\<close>. \<open>callbacks_bound\<close> says that \<open>_onError\<close>,
  \<open>_onMediaInfo\<close>, \<open>_onTrackMetadata\<close> and \<open>_onDataAvailable\<close> are all set, which
  \<open>parseChunks\<close> checks before any tag parser runs; the two optional callbacks have a flag
  each. Of the two tracks the state keeps the running byte \<open>length\<close>; the queued samples
  themselves are not part of this development. \<open>events\<close> is the log of callback calls.
  The constant tables of the constructor are left to the sub-parsers that use them.
\<close>

record FLVDemuxer =
  callbacks_bound :: bool
  onMetaDataArrived_bound :: bool
  onScriptDataArrived_bound :: bool
  dm_dataOffset :: nat
  firstParse :: bool
  dispatch :: bool
  dm_hasAudio :: bool
  dm_hasVideo :: bool
  hasAudioFlagOverrided :: bool
  hasVideoFlagOverrided :: bool
  audioInitialMetadataDispatched :: bool
  videoInitialMetadataDispatched :: bool
  mediaInfo :: MediaInfo
  dm_metadata :: "ScriptData option"
  audioMetadata :: "AudioMeta option"
  videoMetadata :: "VideoMeta option"
  naluLengthSize :: nat
  timestampBase :: int
  timescale :: rat
  dm_duration :: number
  durationOverrided :: bool
  referenceFrameRate :: FrameRate
  videoTrack_length :: nat
  audioTrack_length :: nat
  littleEndian :: bool
  events :: "event list"

text \<open>
  The constructor, for the result of a matching \<open>probe\<close>. The callbacks start unset;
  \<open>littleEndian\<close> is detected from the platform and is a parameter here.
  The \<open>fps\<close> of the reference frame rate is the literal \<open>23.976\<close>, that is the double
  \<open>210895126300459 / 8796093022208\<close>.
\<close>

definition new_FLVDemuxer :: "ProbeData \<Rightarrow> bool \<Rightarrow> FLVDemuxer" where
  "new_FLVDemuxer probeData le =
     \<lparr>callbacks_bound = False, onMetaDataArrived_bound = False, onScriptDataArrived_bound = False,
      dm_dataOffset = pd_dataOffset probeData, firstParse = True, dispatch = False,
      dm_hasAudio = hasAudioTrack probeData, dm_hasVideo = hasVideoTrack probeData,
      hasAudioFlagOverrided = False, hasVideoFlagOverrided = False,
      audioInitialMetadataDispatched = False, videoInitialMetadataDispatched = False,
      mediaInfo = new_MediaInfo\<lparr>mi_hasAudio := Some (hasAudioTrack probeData),
                                mi_hasVideo := Some (hasVideoTrack probeData)\<rparr>,
      dm_metadata = None, audioMetadata = None, videoMetadata = None,
      naluLengthSize = 4, timestampBase = 0, timescale = 1000, dm_duration = Finite 0,
      durationOverrided = False,
      referenceFrameRate = \<lparr>fixed = True, fr_fps = Finite (210895126300459 / 8796093022208),
                            fps_num = Finite 23976, fps_den = 1000\<rparr>,
      videoTrack_length = 0, audioTrack_length = 0, littleEndian = le, events = []\<rparr>"

text \<open>
  \<open>DataView.getUint32(pos, littleEndian)\<close> on a view of the chunk starting at \<open>offset\<close>,
  for a read that is in range.
\<close>

definition getUint32 :: "byte list \<Rightarrow> nat \<Rightarrow> nat \<Rightarrow> bool \<Rightarrow> 32 word" where
  "getUint32 chunk offset pos le_read =
     (let b0 = ucast (chunk ! (offset + pos)) :: 32 word;
          b1 = ucast (chunk ! (offset + pos + 1)) :: 32 word;
          b2 = ucast (chunk ! (offset + pos + 2)) :: 32 word;
          b3 = ucast (chunk ! (offset + pos + 3)) :: 32 word
      in if le_read then push_bit 24 b3 OR push_bit 16 b2 OR push_bit 8 b1 OR b0
         else push_bit 24 b0 OR push_bit 16 b1 OR push_bit 8 b2 OR b3)"

text \<open>
  The fields of the tag header at \<open>offset\<close>, read as the loop reads them:
  \<open>tagType = v.getUint8(0)\<close>, \<open>dataSize = v.getUint32(0, !le) & 0x00FFFFFF\<close>,
  \<open>timestamp = ts0 | (ts1 << 8) | (ts2 << 16) | (ts3 << 24)\<close> (a signed 32-bit integer)
  from bytes 6, 5, 4 and 7.
\<close>

definition tag_type :: "byte list \<Rightarrow> nat \<Rightarrow> nat" where
  "tag_type chunk offset = unat (chunk ! offset)"

definition tag_dataSize :: "bool \<Rightarrow> byte list \<Rightarrow> nat \<Rightarrow> nat" where
  "tag_dataSize le chunk offset = unat (getUint32 chunk offset 0 (\<not> le) AND 0x00FFFFFF)"

definition tag_timestamp :: "byte list \<Rightarrow> nat \<Rightarrow> int" where
  "tag_timestamp chunk offset =
     (let ts2 = ucast (chunk ! (offset + 4)) :: 32 word;
          ts1 = ucast (chunk ! (offset + 5)) :: 32 word;
          ts0 = ucast (chunk ! (offset + 6)) :: 32 word;
          ts3 = ucast (chunk ! (offset + 7)) :: 32 word
      in sint (ts0 OR push_bit 8 ts1 OR push_bit 16 ts2 OR push_bit 24 ts3))"

text \<open>
  The tag parsers \<open>_parseAudioData\<close>, \<open>_parseVideoData\<close> and \<open>_parseScriptData\<close>, called
  as \<open>handler tagType chunk dataOffset dataSize timestamp tagPosition\<close>: they change the
  demuxer's state and may throw, and they cannot touch the local \<open>offset\<close>.
\<close>

type_synonym tag_handler =
  "nat \<Rightarrow> byte list \<Rightarrow> nat \<Rightarrow> nat \<Rightarrow> int \<Rightarrow> nat \<Rightarrow> FLVDemuxer \<Rightarrow> error + FLVDemuxer"

text \<open>
  The \<open>while (offset < chunk.byteLength)\<close> loop. Both \<open>break\<close>s return the current
  \<open>offset\<close>; an unsupported tag type skips the tag. All \<open>DataView\<close> reads of an
  iteration lie below \<open>offset + 11 + dataSize + 4\<close>, which the two checks bound by the
  chunk length, so none of them throws.
\<close>

function parse_tags ::
  "tag_handler \<Rightarrow> bool \<Rightarrow> byte list \<Rightarrow> nat \<Rightarrow> nat \<Rightarrow> FLVDemuxer \<Rightarrow> error + (nat \<times> FLVDemuxer)" where
  "parse_tags handler le chunk byteStart offset d =
     (if offset < length chunk then
        (let d1 = d\<lparr>dispatch := True\<rparr>
         in if offset + 11 + 4 > length chunk then Inr (offset, d1)
            else
              (let tagType = tag_type chunk offset;
                   dataSize = tag_dataSize le chunk offset
               in if offset + 11 + dataSize + 4 > length chunk then Inr (offset, d1)
                  else if tagType \<noteq> 8 \<and> tagType \<noteq> 9 \<and> tagType \<noteq> 18
                  then parse_tags handler le chunk byteStart (offset + 11 + dataSize + 4) d1
                  else
                    (case handler tagType chunk (offset + 11) dataSize
                            (tag_timestamp chunk offset) (byteStart + offset) d1 of
                       Inl e \<Rightarrow> Inl e
                     | Inr d2 \<Rightarrow>
                         parse_tags handler le chunk byteStart (offset + 11 + dataSize + 4) d2)))
      else Inr (offset, d))"
  by pat_completeness auto
termination
  by (relation "measure (\<lambda>(handler, le, chunk, byteStart, offset, d). length chunk - offset)") auto

declare parse_tags.simps [simp del]

text \<open>
  What \<open>parseChunks\<close> does before the loop. \<open>EarlyReturn\<close> is the \<open>return 0\<close> of a chunk
  at \<open>byteStart === 0\<close> with at most 13 bytes. Otherwise the loop starts at an offset,
  which is \<open>None\<close> when it is not a number: a header that \<open>probe\<close> does not match gives
  \<open>offset = undefined\<close> (and \<open>NaN\<close> after \<open>offset += 4\<close>). On the first parse the four
  bytes of PreviousTagSize0 are read through \<open>new DataView(chunk, offset)\<close> and
  \<open>getUint32(0)\<close>, which throw a RangeError unless \<open>offset + 4\<close> is within the chunk
  (\<open>undefined\<close> counts as offset 0 for the view).
\<close>

datatype entry = EarlyReturn | Proceed "nat option" "FLVDemuxer"

definition parse_entry :: "FLVDemuxer \<Rightarrow> byte list \<Rightarrow> nat \<Rightarrow> error + entry" where
  "parse_entry d chunk byteStart =
     (if \<not> callbacks_bound d then Inl IllegalState
      else if byteStart = 0 \<and> \<not> length chunk > 13 then Inr EarlyReturn
      else
        (let offset = (if byteStart = 0 then map_option pd_dataOffset (probe chunk) else Some 0)
         in if firstParse d then
              (let d1 = d\<lparr>firstParse := False\<rparr>;
                   view = (case offset of None \<Rightarrow> 0 | Some off \<Rightarrow> off)
               in if view + 4 > length chunk then Inl RangeError
                  else Inr (Proceed (map_option (\<lambda>off. off + 4) offset) d1))
            else Inr (Proceed offset d)))"

text \<open>
  \<open>parseChunks(chunk, byteStart)\<close>. \<open>finish\<close> is the closing block that hands the queued
  samples to \<open>_onDataAvailable\<close> once the initial metadata has been dispatched. The
  returned offset is \<open>None\<close> when the source returns \<open>undefined\<close> or \<open>NaN\<close>; a
  comparison \<open>offset < chunk.byteLength\<close> with such an offset is false, so the loop is
  skipped.
\<close>

definition parseChunks ::
  "tag_handler \<Rightarrow> (FLVDemuxer \<Rightarrow> error + FLVDemuxer) \<Rightarrow> FLVDemuxer \<Rightarrow> byte list \<Rightarrow> nat
     \<Rightarrow> error + (nat option \<times> FLVDemuxer)" where
  "parseChunks handler finish d chunk byteStart =
     (case parse_entry d chunk byteStart of
        Inl e \<Rightarrow> Inl e
      | Inr EarlyReturn \<Rightarrow> Inr (Some 0, d)
      | Inr (Proceed None d1) \<Rightarrow>
          (case finish d1 of Inl e \<Rightarrow> Inl e | Inr d2 \<Rightarrow> Inr (None, d2))
      | Inr (Proceed (Some offset) d1) \<Rightarrow>
          (case parse_tags handler (littleEndian d) chunk byteStart offset d1 of
             Inl e \<Rightarrow> Inl e
           | Inr (consumed, d2) \<Rightarrow>
               (case finish d2 of Inl e \<Rightarrow> Inl e | Inr d3 \<Rightarrow> Inr (Some consumed, d3))))"

text \<open>
  The declared extent of the tag at \<open>offset\<close> exceeds the chunk; and the offsets at which
  the loop, started at \<open>start\<close>, looks for a tag: each complete tag leads to the offset
  after its PreviousTagSize field.
\<close>

definition tag_incomplete :: "bool \<Rightarrow> byte list \<Rightarrow> nat \<Rightarrow> bool" where
  "tag_incomplete le chunk offset \<longleftrightarrow> offset + 11 + tag_dataSize le chunk offset + 4 > length chunk"

inductive tag_start :: "bool \<Rightarrow> byte list \<Rightarrow> nat \<Rightarrow> nat \<Rightarrow> bool" for le chunk start where
  first_tag: "tag_start le chunk start start"
| next_tag: "tag_start le chunk start offset \<Longrightarrow> offset < length chunk \<Longrightarrow>
             \<not> tag_incomplete le chunk offset \<Longrightarrow>
             tag_start le chunk start (offset + 11 + tag_dataSize le chunk offset + 4)"

code_pred tag_start .

text \<open>With tag parsers that do not throw, the loop returns.\<close>

definition handler_total :: "tag_handler \<Rightarrow> bool" where
  "handler_total handler \<longleftrightarrow> (\<forall>t c off sz ts pos d. \<exists>d'. handler t c off sz ts pos d = Inr d')"

text \<open>
  A chunk of 32 bytes received after the first parse: a complete audio tag with one data
  byte (16 bytes with its PreviousTagSize), then the first 16 bytes of a video tag that
  declares 100 data bytes.
\<close>

definition ex_chunk :: "byte list" where
  "ex_chunk = [8, 0, 0, 1, 0, 0, 0, 0, 0, 0, 0, 0xAF, 0, 0, 0, 12,
               9, 0, 0, 100, 0, 0, 0, 0, 0, 0, 0, 0x17, 1, 0, 0, 0]"

definition ex_demuxer :: "bool \<Rightarrow> FLVDemuxer" where
  "ex_demuxer fp =
     (new_FLVDemuxer \<lparr>pd_dataOffset = 9, hasAudioTrack = True, hasVideoTrack = False\<rparr> True)
       \<lparr>callbacks_bound := True, firstParse := fp\<rparr>"

definition ex_handler :: tag_handler where
  "ex_handler t c off sz ts pos d = Inr d"

definition ex_finish :: "FLVDemuxer \<Rightarrow> error + FLVDemuxer" where
  "ex_finish d = Inr d"

section \<open>FLV demuxer: the tag parsers that report media information\<close>






subsection \<open>\<open>_parseScriptData\<close>\<close>


text \<open>The updates of \<open>_parseScriptData\<close> for a valid \<open>onMetaData\<close> object, in source order.\<close>

definition meta_hasAudio :: "OnMetaData \<Rightarrow> FLVDemuxer \<Rightarrow> FLVDemuxer" where
  "meta_hasAudio md d =
     (case md_hasAudio md of
        Some b \<Rightarrow> if \<not> hasAudioFlagOverrided d
                  then d\<lparr>dm_hasAudio := b, mediaInfo := (mediaInfo d)\<lparr>mi_hasAudio := Some b\<rparr>\<rparr>
                  else d
      | None \<Rightarrow> d)"

definition meta_hasVideo :: "OnMetaData \<Rightarrow> FLVDemuxer \<Rightarrow> FLVDemuxer" where
  "meta_hasVideo md d =
     (case md_hasVideo md of
        Some b \<Rightarrow> if \<not> hasVideoFlagOverrided d
                  then d\<lparr>dm_hasVideo := b, mediaInfo := (mediaInfo d)\<lparr>mi_hasVideo := Some b\<rparr>\<rparr>
                  else d
      | None \<Rightarrow> d)"

definition meta_rates_size :: "OnMetaData \<Rightarrow> FLVDemuxer \<Rightarrow> FLVDemuxer" where
  "meta_rates_size md d =
     (let mi = mediaInfo d;
          mi = (case audiodatarate md of Some x \<Rightarrow> mi\<lparr>audioDataRate := Some x\<rparr> | None \<Rightarrow> mi);
          mi = (case videodatarate md of Some x \<Rightarrow> mi\<lparr>videoDataRate := Some x\<rparr> | None \<Rightarrow> mi);
          mi = (case md_width md of Some x \<Rightarrow> mi\<lparr>mi_width := Some x\<rparr> | None \<Rightarrow> mi);
          mi = (case md_height md of Some x \<Rightarrow> mi\<lparr>mi_height := Some x\<rparr> | None \<Rightarrow> mi)
      in d\<lparr>mediaInfo := mi\<rparr>)"

definition meta_duration :: "OnMetaData \<Rightarrow> FLVDemuxer \<Rightarrow> FLVDemuxer" where
  "meta_duration md d =
     (case md_duration md of
        Some x \<Rightarrow>
          if \<not> durationOverrided d
          then (let dur = js_floor (rounded (x * timescale d))
                in d\<lparr>dm_duration := dur, mediaInfo := (mediaInfo d)\<lparr>mi_duration := Some dur\<rparr>\<rparr>)
          else d
      | None \<Rightarrow> d\<lparr>mediaInfo := (mediaInfo d)\<lparr>mi_duration := Some (Finite 0)\<rparr>\<rparr>)"

definition meta_framerate :: "OnMetaData \<Rightarrow> FLVDemuxer \<Rightarrow> FLVDemuxer" where
  "meta_framerate md d =
     (case framerate md of
        Some x \<Rightarrow>
          (let n = js_floor (rounded (x * 1000))
           in if number_positive n
              then (let fps = number_div n 1000
                    in d\<lparr>referenceFrameRate :=
                            \<lparr>fixed = True, fr_fps = fps, fps_num = n, fps_den = 1000\<rparr>,
                          mediaInfo := (mediaInfo d)\<lparr>mi_fps := Some fps\<rparr>\<rparr>)
              else d)
      | None \<Rightarrow> d)"




subsection \<open>\<open>_parseAudioData\<close>\<close>










subsection \<open>\<open>_parseVideoData\<close> and \<open>_parseAVCDecoderConfigurationRecord\<close>\<close>














subsection \<open>A session: the tags of a stream, in order\<close>




text \<open>The \<open>MediaInfo\<close> callbacks in a log, and the tags that are handed to a parser.\<close>

fun is_media_info :: "event \<Rightarrow> bool" where
  "is_media_info (EvMediaInfo mi) = True"
| "is_media_info e = False"

definition media_info_count :: "event list \<Rightarrow> nat" where
  "media_info_count evs = length (filter is_media_info evs)"


text \<open>A logged \<open>MediaInfo\<close> callback carried a complete media info.\<close>

fun reported_complete :: "event \<Rightarrow> bool" where
  "reported_complete (EvMediaInfo mi) = isComplete mi"
| "reported_complete e = True"

text \<open>
  Between two states the log grew by \<open>evs\<close>; a step is silent when it calls
  \<open>_onMediaInfo\<close> not at all, and reports at most once when it calls it at most once and
  only with a complete media info.
\<close>

definition silent :: "FLVDemuxer \<Rightarrow> FLVDemuxer \<Rightarrow> bool" where
  "silent d d' \<longleftrightarrow> (\<exists>evs. events d' = events d @ evs \<and> media_info_count evs = 0)"

definition reports_at_most_once :: "FLVDemuxer \<Rightarrow> FLVDemuxer \<Rightarrow> bool" where
  "reports_at_most_once d d' \<longleftrightarrow>
     (\<exists>evs. events d' = events d @ evs \<and> media_info_count evs \<le> 1
            \<and> list_all reported_complete evs)"







section \<open>fMP4 remuxer (mp4-remuxer.js, class \<open>MP4Remuxer\<close>)\<close>

subsection \<open>Samples, tracks and segments\<close>

text \<open>
  The samples that the demuxer queues: an audio sample is \<open>{unit, length, dts, pts}\<close>, a
  video sample \<open>{units, length, isKeyframe, dts, cts, pts}\<close> with \<open>fileposition\<close> on
  keyframes. A NAL unit is \<open>{type, data}\<close>.
\<close>

record AudioSample =
  a_unit :: "byte list"
  a_length :: nat
  a_dts :: int
  a_pts :: int

record Nalu =
  nalu_type :: nat
  nalu_data :: "byte list"

record VideoSample =
  v_units :: "Nalu list"
  v_length :: nat
  v_isKeyframe :: bool
  v_dts :: int
  v_cts :: int
  v_pts :: int
  v_fileposition :: "int option"

text \<open>A track \<open>{type, id, sequenceNumber, samples, length}\<close>.\<close>

record 'a Track =
  tr_type :: string
  tr_id :: nat
  sequenceNumber :: nat
  samples :: "'a list"
  tr_length :: nat

text \<open>The samples of a media segment, as the remuxer builds them in \<open>mp4Samples\<close>.\<close>

record SampleFlags =
  isLeading :: nat
  dependsOn :: nat
  isDependedOn :: nat
  hasRedundancy :: nat

record VideoSampleFlags = SampleFlags +
  isNonSync :: nat

record Mp4AudioSample =
  ma_dts :: int
  ma_pts :: int
  ma_cts :: int
  ma_unit :: "byte list"
  ma_size :: nat
  ma_duration :: int
  ma_originalDts :: int
  ma_flags :: SampleFlags

record Mp4VideoSample =
  mv_dts :: int
  mv_pts :: int
  mv_cts :: int
  mv_units :: "Nalu list"
  mv_size :: nat
  mv_isKeyframe :: bool
  mv_duration :: int
  mv_originalDts :: int
  mv_flags :: VideoSampleFlags

text \<open>
  What \<open>_onMediaSegment\<close> receives. The bytes of the \<open>moof\<close> box are not built here: the
  segment records the arguments of \<open>MP4.moof(track, firstDts)\<close> instead, that is the
  track's \<open>sequenceNumber\<close> (written into the \<open>mfhd\<close> box), its \<open>samples\<close> at that moment
  and the base media decode time; \<open>seg_moof\<close> is \<open>None\<close> for a raw MPEG audio segment, which
  has no \<open>moof\<close>. \<open>seg_mdat\<close> is the \<open>mdatbox\<close> buffer.
\<close>

record 'm MediaSegment =
  seg_type :: string
  seg_moof :: "(nat \<times> int) option"
  seg_samples :: "'m list"
  seg_mdat :: "byte list"
  sampleCount :: nat
  seg_info :: MediaSegmentInfo
  timestampOffset :: "int option"

datatype emitted = VideoSegment "Mp4VideoSample MediaSegment" | AudioSegment "Mp4AudioSample MediaSegment"

text \<open>
  The state of the remuxer. \<open>dtsBase\<close>, \<open>audioDtsBase\<close> and \<open>videoDtsBase\<close> are \<open>None\<close> for
  \<open>Infinity\<close>; \<open>audioNextDts\<close> and \<open>videoNextDts\<close> are \<open>None\<close> for \<open>undefined\<close>. The
  browser-dependent switches of the constructor and \<open>Browser.safari\<close> are fields.
  \<open>segments\<close> is the log of the calls of \<open>_onMediaSegment\<close>.
\<close>

record MP4Remuxer =
  rm_isLive :: bool
  dtsBase :: "int option"
  dtsBaseInited :: bool
  audioDtsBase :: "int option"
  videoDtsBase :: "int option"
  audioNextDts :: "int option"
  videoNextDts :: "int option"
  audioStashedLastSample :: "AudioSample option"
  videoStashedLastSample :: "VideoSample option"
  audioMeta :: "AudioMeta option"
  videoMeta :: "VideoMeta option"
  audioSegmentInfoList :: MediaSegmentInfoList
  videoSegmentInfoList :: MediaSegmentInfoList
  onMediaSegment_bound :: bool
  forceFirstIDR :: bool
  fillSilentAfterSeek :: bool
  mp3UseMpegAudio :: bool
  fillAudioTimestampGap :: bool
  safari :: bool
  segments :: "emitted list"

text \<open>
  The constructor: \<open>isLive\<close> and \<open>fixAudioTimestampGap\<close> come from the configuration, the
  other four switches from the browser.
\<close>

definition new_MP4Remuxer :: "bool \<Rightarrow> bool \<Rightarrow> bool \<Rightarrow> bool \<Rightarrow> bool \<Rightarrow> bool \<Rightarrow> MP4Remuxer" where
  "new_MP4Remuxer live fixGap firstIDR silentAfterSeek mpegAudio isSafari =
     \<lparr>rm_isLive = live, dtsBase = Some (- 1), dtsBaseInited = False, audioDtsBase = None,
      videoDtsBase = None, audioNextDts = None, videoNextDts = None,
      audioStashedLastSample = None, videoStashedLastSample = None, audioMeta = None,
      videoMeta = None, audioSegmentInfoList = new_MediaSegmentInfoList ''audio'',
      videoSegmentInfoList = new_MediaSegmentInfoList ''video'', onMediaSegment_bound = False,
      forceFirstIDR = firstIDR, fillSilentAfterSeek = silentAfterSeek,
      mp3UseMpegAudio = mpegAudio, fillAudioTimestampGap = fixGap, safari = isSafari,
      segments = []\<rparr>"

definition insertDiscontinuity :: "MP4Remuxer \<Rightarrow> MP4Remuxer" where
  "insertDiscontinuity r = r\<lparr>audioNextDts := None, videoNextDts := None\<rparr>"

definition remuxer_seek :: "MP4Remuxer \<Rightarrow> MP4Remuxer" where
  "remuxer_seek r =
     r\<lparr>audioStashedLastSample := None, videoStashedLastSample := None,
       videoSegmentInfoList := msil_clear (videoSegmentInfoList r),
       audioSegmentInfoList := msil_clear (audioSegmentInfoList r)\<rparr>"

text \<open>\<open>Math.min\<close> on values that may be \<open>Infinity\<close>.\<close>

definition js_min :: "int option \<Rightarrow> int option \<Rightarrow> int option" where
  "js_min a b =
     (case a of None \<Rightarrow> b | Some x \<Rightarrow> (case b of None \<Rightarrow> Some x | Some y \<Rightarrow> Some (min x y)))"

definition calculateDtsBase :: "MP4Remuxer \<Rightarrow> AudioSample Track \<Rightarrow> VideoSample Track \<Rightarrow> MP4Remuxer" where
  "calculateDtsBase r audioTrack videoTrack =
     (if dtsBaseInited r then r
      else
        (let r = (if length (samples audioTrack) \<noteq> 0
                  then r\<lparr>audioDtsBase := Some (a_dts (samples audioTrack ! 0))\<rparr> else r);
             r = (if length (samples videoTrack) \<noteq> 0
                  then r\<lparr>videoDtsBase := Some (v_dts (samples videoTrack ! 0))\<rparr> else r)
         in r\<lparr>dtsBase := js_min (audioDtsBase r) (videoDtsBase r), dtsBaseInited := True\<rparr>))"

subsection \<open>DTS correction\<close>

text \<open>
  \<open>if (this._videoNextDts)\<close> tests the value for truthiness: \<open>undefined\<close> and \<open>0\<close> both
  fail it.
\<close>

definition js_truthy :: "int option \<Rightarrow> bool" where
  "js_truthy x = (case x of None \<Rightarrow> False | Some n \<Rightarrow> n \<noteq> 0)"

text \<open>
  The correction from the segment list, for a non-empty list: the distance to the end of
  the last sample before \<open>firstSampleOriginalDts\<close>, collapsed to 0 up to 3 ms.
\<close>

definition list_dtsCorrection :: "MediaSegmentInfoList \<Rightarrow> int \<Rightarrow> error + int" where
  "list_dtsCorrection list firstSampleOriginalDts =
     (case getLastSampleBefore list firstSampleOriginalDts of
        Inl e \<Rightarrow> Inl e
      | Inr None \<Rightarrow> Inr 0
      | Inr (Some ls) \<Rightarrow>
          (let distance = firstSampleOriginalDts - (si_originalDts ls + si_duration ls);
               distance = (if distance \<le> 3 then 0 else distance);
               expectedDts = si_dts ls + si_duration ls + distance
           in Inr (firstSampleOriginalDts - expectedDts)))"

text \<open>
  \<open>calculate dtsCorrection\<close>, as both \<open>_remuxVideo\<close> and \<open>_remuxAudio\<close> do it, from the
  track's \<open>nextDts\<close> and segment list.
\<close>

definition dtsCorrection_of :: "int option \<Rightarrow> MediaSegmentInfoList \<Rightarrow> int \<Rightarrow> error + int" where
  "dtsCorrection_of nextDts list firstSampleOriginalDts =
     (if js_truthy nextDts then Inr (firstSampleOriginalDts - the nextDts)
      else if isEmpty list then Inr 0
      else list_dtsCorrection list firstSampleOriginalDts)"

subsection \<open>The \<open>mdat\<close> buffer\<close>

text \<open>
  \<open>new Uint8Array(mdatBytes)\<close> throws a RangeError for a negative length. For an fMP4
  segment the size and the type \<open>mdat\<close> are written first; an indexed write past the end of
  a typed array is ignored, \<open>set\<close> is not. Then the payloads are copied one after the
  other from \<open>offset\<close> on, as in \<open>MP4.box\<close>.
\<close>

definition mdat_type :: "byte list" where
  "mdat_type = [0x6D, 0x64, 0x61, 0x74]"

definition build_mdat :: "bool \<Rightarrow> int \<Rightarrow> byte list list \<Rightarrow> error + byte list" where
  "build_mdat raw mdatBytes payloads =
     (if mdatBytes < 0 then Inl RangeError
      else if raw then box_fill (replicate (nat mdatBytes) 0) payloads 0
      else
        (let n = nat mdatBytes;
             mdatbox = replicate n (0 :: byte);
             mdatbox = mdatbox[0 := size_byte n 24];
             mdatbox = mdatbox[1 := size_byte n 16];
             mdatbox = mdatbox[2 := size_byte n 8];
             mdatbox = mdatbox[3 := size_byte n 0]
         in case typed_array_set mdatbox mdat_type 4 of
              Inl e \<Rightarrow> Inl e
            | Inr mdatbox \<Rightarrow> box_fill mdatbox payloads 8))"

subsection \<open>\<open>_remuxVideo\<close>\<close>

text \<open>
  The batch that is remuxed: the last sample of the track is popped (when there are at
  least two) and becomes the new stashed sample, the sample stashed by the previous batch
  is put in front. The result is \<open>samples\<close>, \<open>lastSample\<close> (here \<open>popped\<close>) and \<open>mdatBytes\<close> (without the 8
  bytes of the box header).
\<close>

definition take_batch :: "('a \<Rightarrow> nat) \<Rightarrow> 'a list \<Rightarrow> nat \<Rightarrow> 'a option \<Rightarrow> 'a list \<times> 'a option \<times> int" where
  "take_batch len smp track_length stashed =
     (let mdatBytes = int track_length;
          popped = (if length smp > 1 then Some (last smp) else None);
          smp = (if length smp > 1 then butlast smp else smp);
          mdatBytes = (case popped of Some l \<Rightarrow> mdatBytes - int (len l) | None \<Rightarrow> mdatBytes)
      in case stashed of
           Some s \<Rightarrow> (s # smp, popped, mdatBytes + int (len s))
         | None \<Rightarrow> (smp, popped, mdatBytes))"

text \<open>
  The duration of sample \<open>i\<close> at corrected time \<open>dts\<close>: up to the next sample of the batch,
  for the last one up to the popped \<open>lastSample\<close>, else the duration of the previous
  entry of \<open>mp4Samples\<close>, else \<open>Math.floor(refSampleDuration)\<close>. \<open>next_dts\<close> is the raw
  \<open>dts\<close> of the following sample, if there is one, and \<open>prev_duration\<close> the duration of the
  last entry of \<open>mp4Samples\<close>, if there is one.
\<close>

definition sample_duration :: "int \<Rightarrow> int \<Rightarrow> rat option \<Rightarrow> int option \<Rightarrow> int option \<Rightarrow> int \<Rightarrow> error + int" where
  "sample_duration base corr ref next_dts prev_duration dts =
     (case next_dts of
        Some n \<Rightarrow> Inr ((n - base - corr) - dts)
      | None \<Rightarrow>
          (case prev_duration of
             Some d \<Rightarrow> Inr d
           | None \<Rightarrow> (case ref of None \<Rightarrow> Inl NonFinite | Some x \<Rightarrow> Inr \<lfloor>x\<rfloor>)))"

definition next_video_dts :: "VideoSample list \<Rightarrow> VideoSample option \<Rightarrow> int option" where
  "next_video_dts rest popped =
     (case rest of n # _ \<Rightarrow> Some (v_dts n) | [] \<Rightarrow> map_option v_dts popped)"

definition prev_video_duration :: "Mp4VideoSample list \<Rightarrow> int option" where
  "prev_video_duration mp4Samples =
     (if length mp4Samples \<ge> 1 then Some (mv_duration (last mp4Samples)) else None)"

definition video_flags :: "bool \<Rightarrow> VideoSampleFlags" where
  "video_flags isKeyframe =
     \<lparr>isLeading = 0, dependsOn = (if isKeyframe then 2 else 1),
      isDependedOn = (if isKeyframe then 1 else 0), hasRedundancy = 0,
      isNonSync = (if isKeyframe then 0 else 1)\<rparr>"

text \<open>The variables that the sample loop of \<open>_remuxVideo\<close> updates.\<close>

record VideoLoop =
  vl_mp4Samples :: "Mp4VideoSample list"
  vl_info :: MediaSegmentInfo
  vl_firstDts :: int
  vl_firstPts :: int

text \<open>One round of the loop, for \<open>sample\<close> followed by \<open>rest\<close>.\<close>

definition video_step ::
  "int \<Rightarrow> int \<Rightarrow> rat option \<Rightarrow> VideoSample option \<Rightarrow> VideoSample \<Rightarrow> VideoSample list \<Rightarrow> VideoLoop
     \<Rightarrow> error + VideoLoop" where
  "video_step base corr ref popped sample rest st =
     (let originalDts = v_dts sample - base;
          isKeyframe = v_isKeyframe sample;
          dts = originalDts - corr;
          cts = v_cts sample;
          pts = dts + cts;
          st = (if vl_firstDts st = - 1 then st\<lparr>vl_firstDts := dts, vl_firstPts := pts\<rparr> else st)
      in case sample_duration base corr ref (next_video_dts rest popped)
                (prev_video_duration (vl_mp4Samples st)) dts of
           Inl e \<Rightarrow> Inl e
         | Inr sampleDuration \<Rightarrow>
             (let st = (if isKeyframe
                        then st\<lparr>vl_info := appendSyncPoint (vl_info st)
                                  ((new_SampleInfo dts pts sampleDuration (v_dts sample) True)
                                     \<lparr>fileposition := v_fileposition sample\<rparr>)\<rparr>
                        else st)
              in Inr (st\<lparr>vl_mp4Samples := vl_mp4Samples st @
                          [\<lparr>mv_dts = dts, mv_pts = pts, mv_cts = cts, mv_units = v_units sample,
                            mv_size = v_length sample, mv_isKeyframe = isKeyframe,
                            mv_duration = sampleDuration, mv_originalDts = originalDts,
                            mv_flags = video_flags isKeyframe\<rparr>]\<rparr>)))"

fun video_loop ::
  "int \<Rightarrow> int \<Rightarrow> rat option \<Rightarrow> VideoSample option \<Rightarrow> VideoSample list \<Rightarrow> VideoLoop
     \<Rightarrow> error + VideoLoop" where
  "video_loop base corr ref popped [] st = Inr st"
| "video_loop base corr ref popped (sample # rest) st =
     (case video_step base corr ref popped sample rest st of
        Inl e \<Rightarrow> Inl e
      | Inr st' \<Rightarrow> video_loop base corr ref popped rest st')"

text \<open>
  The workaround for Chrome below 50 marks the first sample as a random access point.
\<close>

definition force_first_idr :: "Mp4VideoSample list \<Rightarrow> Mp4VideoSample list" where
  "force_first_idr mp4Samples =
     (case mp4Samples of
        [] \<Rightarrow> []
      | s # rest \<Rightarrow> s\<lparr>mv_flags := (mv_flags s)\<lparr>dependsOn := 2, isNonSync := 0\<rparr>\<rparr> # rest)"

text \<open>
  The rest of \<open>_remuxVideo\<close>, after the sample loop: the \<open>mdat\<close> buffer, \<open>_videoNextDts\<close>,
  the segment info and its list, the track's sequence number, and the call of
  \<open>_onMediaSegment\<close> (a TypeError when the callback is not set). Writing the units into
  the buffer empties \<open>units\<close> of every sample.
\<close>

definition video_finish ::
  "MP4Remuxer \<Rightarrow> VideoSample Track \<Rightarrow> int \<Rightarrow> VideoLoop \<Rightarrow> error + MP4Remuxer \<times> VideoSample Track" where
  "video_finish r track mdatBytes st =
     (case build_mdat False mdatBytes (concat (map (\<lambda>s. map nalu_data (mv_units s)) (vl_mp4Samples st))) of
        Inl e \<Rightarrow> Inl e
      | Inr mdatbox \<Rightarrow>
          (let mp4Samples = map (\<lambda>s. s\<lparr>mv_units := []\<rparr>) (vl_mp4Samples st);
               latest = last mp4Samples;
               first = hd mp4Samples;
               lastDts = mv_dts latest + mv_duration latest;
               lastPts = mv_pts latest + mv_duration latest;
               r = r\<lparr>videoNextDts := Some lastDts\<rparr>;
               info = (vl_info st)
                 \<lparr>beginDts := vl_firstDts st, endDts := lastDts, beginPts := vl_firstPts st,
                  endPts := lastPts, originalBeginDts := mv_originalDts first,
                  originalEndDts := mv_originalDts latest + mv_duration latest,
                  firstSample := Some (new_SampleInfo (mv_dts first) (mv_pts first)
                     (mv_duration first) (mv_originalDts first) (mv_isKeyframe first)),
                  lastSample := Some (new_SampleInfo (mv_dts latest) (mv_pts latest)
                     (mv_duration latest) (mv_originalDts latest) (mv_isKeyframe latest))\<rparr>
           in case (if \<not> rm_isLive r then msil_append (videoSegmentInfoList r) info
                    else Inr (videoSegmentInfoList r)) of
                Inl e \<Rightarrow> Inl e
              | Inr list \<Rightarrow>
                  (let r = r\<lparr>videoSegmentInfoList := list\<rparr>;
                       track = track\<lparr>sequenceNumber := sequenceNumber track + 1\<rparr>;
                       mp4Samples = (if forceFirstIDR r then force_first_idr mp4Samples else mp4Samples);
                       segment = \<lparr>seg_type = ''video'',
                                  seg_moof = Some (sequenceNumber track, vl_firstDts st),
                                  seg_samples = mp4Samples, seg_mdat = mdatbox,
                                  sampleCount = length mp4Samples, seg_info = info,
                                  timestampOffset = None\<rparr>;
                       track = track\<lparr>samples := [], tr_length := 0\<rparr>
                   in if \<not> onMediaSegment_bound r then Inl TypeError
                      else Inr (r\<lparr>segments := segments r @ [VideoSegment segment]\<rparr>, track))))"

text \<open>\<open>_remuxVideo(videoTrack, force)\<close>.\<close>

definition remuxVideo ::
  "MP4Remuxer \<Rightarrow> VideoSample Track \<Rightarrow> bool \<Rightarrow> error + MP4Remuxer \<times> VideoSample Track" where
  "remuxVideo r track force =
     (case videoMeta r of
        None \<Rightarrow> Inr (r, track)
      | Some meta \<Rightarrow>
          if length (samples track) = 0 then Inr (r, track)
          else if length (samples track) = 1 \<and> \<not> force then Inr (r, track)
          else
            (case take_batch v_length (samples track) (tr_length track) (videoStashedLastSample r) of
               (smp, popped, payloadBytes) \<Rightarrow>
                 (let mdatBytes = 8 + payloadBytes;
                      r = r\<lparr>videoStashedLastSample := popped\<rparr>
                  in case dtsBase r of
                       None \<Rightarrow> Inl NonFinite
                     | Some base \<Rightarrow>
                         (let firstSampleOriginalDts = v_dts (hd smp) - base
                          in case dtsCorrection_of (videoNextDts r) (videoSegmentInfoList r)
                                    firstSampleOriginalDts of
                               Inl e \<Rightarrow> Inl e
                             | Inr dtsCorrection \<Rightarrow>
                                 (case video_loop base dtsCorrection (vm_refSampleDuration meta)
                                         popped smp
                                         \<lparr>vl_mp4Samples = [], vl_info = new_MediaSegmentInfo,
                                          vl_firstDts = - 1, vl_firstPts = - 1\<rparr> of
                                    Inl e \<Rightarrow> Inl e
                                  | Inr st \<Rightarrow> video_finish r track mdatBytes st)))))"

subsection \<open>\<open>_remuxAudio\<close>\<close>

text \<open>
  \<open>AAC.getSilentFrame(codec, channelCount)\<close> is defined outside the files at hand; the
  functions below take it as the argument \<open>getSilentFrame\<close>, with \<open>None\<close> for \<open>null\<close>.
  \<open>refSampleDuration\<close> is a fraction of a millisecond in general (\<open>1024 / sampleRate * 1000\<close>
  for AAC), so the arithmetic on it is rounded: the functions take the rounding \<open>fl\<close> as
  their first argument, which is \<open>to_double\<close> in the program. \<open>Math.round\<close>, \<open>Math.floor\<close>,
  \<open>Math.ceil\<close> and \<open>Math.abs\<close> are exact on a Number; \<open>Math.round\<close> rounds halves up.
\<close>

definition js_round :: "rat \<Rightarrow> int" where
  "js_round x = \<lfloor>x + 1 / 2\<rfloor>"

definition audio_flags :: SampleFlags where
  "audio_flags = \<lparr>isLeading = 0, dependsOn = 1, isDependedOn = 0, hasRedundancy = 0\<rparr>"

definition silent_frame :: "byte list \<Rightarrow> int \<Rightarrow> int \<Rightarrow> Mp4AudioSample" where
  "silent_frame silentUnit originalDts intDts =
     \<lparr>ma_dts = intDts, ma_pts = intDts, ma_cts = 0, ma_unit = silentUnit,
      ma_size = length silentUnit, ma_duration = 0, ma_originalDts = originalDts,
      ma_flags = audio_flags\<rparr>"

text \<open>\<open>previousFrame.duration = intDts - previousFrame.dts\<close>, when there is a previous frame.\<close>

definition close_previous :: "Mp4AudioSample list \<Rightarrow> int \<Rightarrow> Mp4AudioSample list" where
  "close_previous silentFrames t =
     (if length silentFrames > 0
      then silentFrames[length silentFrames - 1 :=
             (last silentFrames)\<lparr>ma_duration := t - ma_dts (last silentFrames)\<rparr>]
      else silentFrames)"

text \<open>
  The loop \<open>for (let j = 0; j < frameCount; j++)\<close>; the second argument counts the rounds
  that are left. \<open>currentDts\<close> is \<open>None\<close> once \<open>currentDts += refSampleDuration\<close> has
  overflowed to \<open>Infinity\<close>; the frame of the next round would then get a \<open>dts\<close> that is not
  finite.
\<close>

fun silent_frame_loop ::
  "rounding \<Rightarrow> nat \<Rightarrow> rat option \<Rightarrow> rat \<Rightarrow> byte list \<Rightarrow> int \<Rightarrow> Mp4AudioSample list
     \<Rightarrow> error + Mp4AudioSample list" where
  "silent_frame_loop fl 0 currentDts ref silentUnit originalDts silentFrames = Inr silentFrames"
| "silent_frame_loop fl (Suc n) currentDts ref silentUnit originalDts silentFrames =
     (case currentDts of
        None \<Rightarrow> Inl NonFinite
      | Some c \<Rightarrow>
          (let intDts = js_round c;
               silentFrames = close_previous silentFrames intDts
           in silent_frame_loop fl n (fl (c + ref)) ref silentUnit originalDts
                (silentFrames @ [silent_frame silentUnit originalDts intDts])))"

text \<open>
  The number of rounds of that loop, from
  \<open>frameCount = Math.ceil(Math.abs(sampleDuration - refSampleDuration) / refSampleDuration)\<close>;
  \<open>None\<close> when the loop has no exit. The difference and the quotient are rounded. A
  quotient that is \<open>NaN\<close> or \<open>-Infinity\<close> gives no round, as a count of zero or less does;
  with \<open>Infinity\<close> the loop does not end, nor with a count above \<open>2 ^ 53\<close>, where \<open>j++\<close> no
  longer changes \<open>j\<close>.
\<close>

definition frame_rounds :: "rounding \<Rightarrow> rat \<Rightarrow> int \<Rightarrow> nat option" where
  "frame_rounds fl ref sampleDuration =
     (case fl (of_int sampleDuration - ref) of
        None \<Rightarrow> if ref < 0 then Some 0 else None
      | Some d \<Rightarrow>
          if ref = 0 then (if d = 0 then Some 0 else None)
          else
            (case fl (\<bar>d\<bar> / ref) of
               None \<Rightarrow> if ref < 0 then Some 0 else None
             | Some q \<Rightarrow>
                 if 2 ^ 53 < \<lceil>q\<rceil> then None else Some (nat \<lceil>q\<rceil>)))"

text \<open>
  The silent frames for a sample at \<open>dts\<close> whose duration \<open>sampleDuration\<close> is too long.
  Without a frame, \<open>lastFrame\<close> is \<open>undefined\<close> and the assignment of its duration a
  TypeError.
\<close>

definition fill_silent_frames ::
  "rounding \<Rightarrow> rat \<Rightarrow> byte list \<Rightarrow> int \<Rightarrow> int \<Rightarrow> int \<Rightarrow> error + Mp4AudioSample list" where
  "fill_silent_frames fl ref silentUnit originalDts dts sampleDuration =
     (case frame_rounds fl ref sampleDuration of
        None \<Rightarrow> Inl NonTermination
      | Some frameCount \<Rightarrow>
          (case silent_frame_loop fl frameCount (fl (of_int dts + ref)) ref silentUnit
                  originalDts [] of
             Inl e \<Rightarrow> Inl e
           | Inr silentFrames \<Rightarrow>
               if silentFrames = [] then Inl TypeError
               else Inr (close_previous silentFrames (dts + sampleDuration))))"

text \<open>
  The condition under which silent frames are generated:
  \<open>sampleDuration > refSampleDuration * 1.5\<close>, not an MP3 track, \<open>fixAudioTimestampGap\<close>
  configured and not Safari. The product is rounded; when it overflows it is \<open>Infinity\<close> or
  \<open>-Infinity\<close> with the sign of \<open>refSampleDuration\<close>.
\<close>

definition needFillSilentFrames :: "rounding \<Rightarrow> MP4Remuxer \<Rightarrow> AudioMeta \<Rightarrow> int \<Rightarrow> bool" where
  "needFillSilentFrames fl r meta sampleDuration =
     ((case am_refSampleDuration meta of
         None \<Rightarrow> False
       | Some ref \<Rightarrow>
           (case fl (ref * (3 / 2)) of
              None \<Rightarrow> ref < 0
            | Some limit \<Rightarrow> limit < of_int sampleDuration)) \<and>
      am_codec meta \<noteq> Some ''mp3'' \<and> fillAudioTimestampGap r \<and> \<not> safari r)"

definition next_audio_dts :: "AudioSample list \<Rightarrow> AudioSample option \<Rightarrow> int option" where
  "next_audio_dts rest popped =
     (case rest of n # _ \<Rightarrow> Some (a_dts n) | [] \<Rightarrow> map_option a_dts popped)"

definition prev_audio_duration :: "Mp4AudioSample list \<Rightarrow> int option" where
  "prev_audio_duration mp4Samples =
     (if length mp4Samples \<ge> 1 then Some (ma_duration (last mp4Samples)) else None)"

definition audio_sample :: "AudioSample \<Rightarrow> int \<Rightarrow> int \<Rightarrow> int \<Rightarrow> Mp4AudioSample" where
  "audio_sample sample dts sampleDuration originalDts =
     \<lparr>ma_dts = dts, ma_pts = dts, ma_cts = 0, ma_unit = a_unit sample,
      ma_size = length (a_unit sample), ma_duration = sampleDuration,
      ma_originalDts = originalDts, ma_flags = audio_flags\<rparr>"

text \<open>The variables that the sample loop of \<open>_remuxAudio\<close> updates.\<close>

record AudioLoop =
  al_mp4Samples :: "Mp4AudioSample list"
  al_firstDts :: int
  al_mdatBytes :: int

text \<open>
  The unit of the silent frames: \<open>AAC.getSilentFrame(originalCodec, channelCount)\<close>, or
  the unit of the sample itself when there is none.
\<close>

definition silent_unit ::
  "(string option \<Rightarrow> rat \<Rightarrow> byte list option) \<Rightarrow> AudioMeta \<Rightarrow> AudioSample \<Rightarrow> byte list" where
  "silent_unit getSilentFrame meta sample =
     (case getSilentFrame (am_originalCodec meta) (am_channelCount meta) of
        None \<Rightarrow> a_unit sample
      | Some u \<Rightarrow> u)"

text \<open>One round of the loop, for \<open>sample\<close> followed by \<open>rest\<close>.\<close>

definition audio_step ::
  "rounding \<Rightarrow> (string option \<Rightarrow> rat \<Rightarrow> byte list option) \<Rightarrow> MP4Remuxer \<Rightarrow> AudioMeta \<Rightarrow> int \<Rightarrow> int
     \<Rightarrow> AudioSample option \<Rightarrow> AudioSample \<Rightarrow> AudioSample list \<Rightarrow> AudioLoop \<Rightarrow> error + AudioLoop" where
  "audio_step fl getSilentFrame r meta base corr popped sample rest st =
     (let originalDts = a_dts sample - base;
          dts = originalDts - corr;
          st = (if al_firstDts st = - 1 then st\<lparr>al_firstDts := dts\<rparr> else st)
      in case sample_duration base corr (am_refSampleDuration meta) (next_audio_dts rest popped)
                (prev_audio_duration (al_mp4Samples st)) dts of
           Inl e \<Rightarrow> Inl e
         | Inr sampleDuration \<Rightarrow>
             if needFillSilentFrames fl r meta sampleDuration
             then
               (let ref = the (am_refSampleDuration meta)
                in case fill_silent_frames fl ref (silent_unit getSilentFrame meta sample)
                          originalDts dts sampleDuration of
                     Inl e \<Rightarrow> Inl e
                   | Inr silentFrames \<Rightarrow>
                       Inr (st\<lparr>al_mp4Samples := al_mp4Samples st @
                                  audio_sample sample dts (js_round ref) originalDts # silentFrames,
                               al_mdatBytes := al_mdatBytes st + sum_list (map (int \<circ> ma_size) silentFrames)\<rparr>))
             else
               Inr (st\<lparr>al_mp4Samples := al_mp4Samples st @
                          [audio_sample sample dts sampleDuration originalDts]\<rparr>))"

fun audio_loop ::
  "rounding \<Rightarrow> (string option \<Rightarrow> rat \<Rightarrow> byte list option) \<Rightarrow> MP4Remuxer \<Rightarrow> AudioMeta \<Rightarrow> int \<Rightarrow> int
     \<Rightarrow> AudioSample option \<Rightarrow> AudioSample list \<Rightarrow> AudioLoop \<Rightarrow> error + AudioLoop" where
  "audio_loop fl getSilentFrame r meta base corr popped [] st = Inr st"
| "audio_loop fl getSilentFrame r meta base corr popped (sample # rest) st =
     (case audio_step fl getSilentFrame r meta base corr popped sample rest st of
        Inl e \<Rightarrow> Inl e
      | Inr st' \<Rightarrow> audio_loop fl getSilentFrame r meta base corr popped rest st')"

text \<open>
  The silent frame that is put in front of the first audio segment after a seek when the
  video starts earlier. The flag \<open>insertPrefixSilentFrame\<close> is set in the branch of the
  DTS correction where \<open>_audioNextDts\<close> is not truthy and the audio segment list is empty.
  The new sample \<open>{unit, dts, pts}\<close> has no \<open>length\<close>, which nothing reads afterwards.
\<close>

definition insertPrefixSilentFrame :: "MP4Remuxer \<Rightarrow> AudioMeta \<Rightarrow> bool" where
  "insertPrefixSilentFrame r meta =
     (\<not> js_truthy (audioNextDts r) \<and> isEmpty (audioSegmentInfoList r) \<and> fillSilentAfterSeek r \<and>
      \<not> isEmpty (videoSegmentInfoList r) \<and> am_originalCodec meta \<noteq> Some ''mp3'')"

definition prefix_silent_frame ::
  "(string option \<Rightarrow> rat \<Rightarrow> byte list option) \<Rightarrow> MP4Remuxer \<Rightarrow> AudioMeta \<Rightarrow> int \<Rightarrow> int
     \<Rightarrow> error + AudioSample option" where
  "prefix_silent_frame getSilentFrame r meta firstSampleOriginalDts dtsCorrection =
     (if \<not> insertPrefixSilentFrame r meta then Inr None
      else
        (let firstSampleDts = firstSampleOriginalDts - dtsCorrection
         in case getLastSegmentBefore (videoSegmentInfoList r) firstSampleOriginalDts of
              Inl e \<Rightarrow> Inl e
            | Inr None \<Rightarrow> Inr None
            | Inr (Some videoSegment) \<Rightarrow>
                if beginDts videoSegment < firstSampleDts
                then (case getSilentFrame (am_originalCodec meta) (am_channelCount meta) of
                        None \<Rightarrow> Inr None
                      | Some silentUnit \<Rightarrow>
                          Inr (Some \<lparr>a_unit = silentUnit, a_length = 0,
                                     a_dts = beginDts videoSegment, a_pts = beginDts videoSegment\<rparr>))
                else Inr None))"

text \<open>
  The rest of \<open>_remuxAudio\<close>, after the sample loop. \<open>raw\<close> is \<open>mpegRawTrack\<close>: an MP3
  track that is passed on as \<open>audio/mpeg\<close>, without \<open>mdat\<close> header and without \<open>moof\<close>.
\<close>

definition audio_finish ::
  "MP4Remuxer \<Rightarrow> AudioSample Track \<Rightarrow> bool \<Rightarrow> bool \<Rightarrow> AudioLoop \<Rightarrow> error + MP4Remuxer \<times> AudioSample Track" where
  "audio_finish r track raw firstSegmentAfterSeek st =
     (case build_mdat raw (al_mdatBytes st) (map ma_unit (al_mp4Samples st)) of
        Inl e \<Rightarrow> Inl e
      | Inr mdatbox \<Rightarrow>
          (let mp4Samples = al_mp4Samples st;
               latest = last mp4Samples;
               first = hd mp4Samples;
               firstDts = al_firstDts st;
               lastDts = ma_dts latest + ma_duration latest;
               r = r\<lparr>audioNextDts := Some lastDts\<rparr>;
               info = new_MediaSegmentInfo
                 \<lparr>beginDts := firstDts, endDts := lastDts, beginPts := firstDts,
                  endPts := lastDts, originalBeginDts := ma_originalDts first,
                  originalEndDts := ma_originalDts latest + ma_duration latest,
                  firstSample := Some (new_SampleInfo (ma_dts first) (ma_pts first)
                     (ma_duration first) (ma_originalDts first) False),
                  lastSample := Some (new_SampleInfo (ma_dts latest) (ma_pts latest)
                     (ma_duration latest) (ma_originalDts latest) False)\<rparr>
           in case (if \<not> rm_isLive r then msil_append (audioSegmentInfoList r) info
                    else Inr (audioSegmentInfoList r)) of
                Inl e \<Rightarrow> Inl e
              | Inr list \<Rightarrow>
                  (let r = r\<lparr>audioSegmentInfoList := list\<rparr>;
                       track = track\<lparr>sequenceNumber := sequenceNumber track + 1\<rparr>;
                       segment = \<lparr>seg_type = ''audio'',
                                  seg_moof = (if raw then None
                                              else Some (sequenceNumber track, firstDts)),
                                  seg_samples = mp4Samples, seg_mdat = mdatbox,
                                  sampleCount = length mp4Samples, seg_info = info,
                                  timestampOffset = (if raw \<and> firstSegmentAfterSeek
                                                     then Some firstDts else None)\<rparr>;
                       track = track\<lparr>samples := [], tr_length := 0\<rparr>
                   in if \<not> onMediaSegment_bound r then Inl TypeError
                      else Inr (r\<lparr>segments := segments r @ [AudioSegment segment]\<rparr>, track))))"

text \<open>\<open>_remuxAudio(audioTrack, force)\<close>.\<close>

definition remuxAudio ::
  "rounding \<Rightarrow> (string option \<Rightarrow> rat \<Rightarrow> byte list option) \<Rightarrow> MP4Remuxer \<Rightarrow> AudioSample Track \<Rightarrow> bool
     \<Rightarrow> error + MP4Remuxer \<times> AudioSample Track" where
  "remuxAudio fl getSilentFrame r track force =
     (case audioMeta r of
        None \<Rightarrow> Inr (r, track)
      | Some meta \<Rightarrow>
          if length (samples track) = 0 then Inr (r, track)
          else if length (samples track) = 1 \<and> \<not> force then Inr (r, track)
          else
            (case take_batch a_length (samples track) (tr_length track) (audioStashedLastSample r) of
               (smp, popped, payloadBytes) \<Rightarrow>
                 (let mpegRawTrack = (am_codec meta = Some ''mp3'' \<and> mp3UseMpegAudio r);
                      firstSegmentAfterSeek = (dtsBaseInited r \<and> audioNextDts r = None);
                      mdatBytes = (if mpegRawTrack then payloadBytes else 8 + payloadBytes);
                      r0 = r\<lparr>audioStashedLastSample := popped\<rparr>
                  in case dtsBase r0 of
                       None \<Rightarrow> Inl NonFinite
                     | Some base \<Rightarrow>
                         (let firstSampleOriginalDts = a_dts (hd smp) - base
                          in case dtsCorrection_of (audioNextDts r0) (audioSegmentInfoList r0)
                                    firstSampleOriginalDts of
                               Inl e \<Rightarrow> Inl e
                             | Inr dtsCorrection \<Rightarrow>
                                 (case prefix_silent_frame getSilentFrame r0 meta
                                         firstSampleOriginalDts dtsCorrection of
                                    Inl e \<Rightarrow> Inl e
                                  | Inr prefix \<Rightarrow>
                                      (let smp = (case prefix of None \<Rightarrow> smp | Some s \<Rightarrow> s # smp);
                                           mdatBytes = (case prefix of
                                                          None \<Rightarrow> mdatBytes
                                                        | Some s \<Rightarrow> mdatBytes + int (length (a_unit s)))
                                       in case audio_loop fl getSilentFrame r0 meta base dtsCorrection
                                                 popped smp
                                                 \<lparr>al_mp4Samples = [], al_firstDts = - 1,
                                                  al_mdatBytes = mdatBytes\<rparr> of
                                            Inl e \<Rightarrow> Inl e
                                          | Inr st \<Rightarrow>
                                              audio_finish r0 track mpegRawTrack
                                                firstSegmentAfterSeek st))))))"

subsection \<open>\<open>remux\<close> and \<open>flushStashedSamples\<close>\<close>

text \<open>
  \<open>remux(audioTrack, videoTrack)\<close>, the demuxer's \<open>onDataAvailable\<close>: the tracks are the
  demuxer's own two objects, which it fills and keeps for the whole session.
\<close>

definition remux ::
  "rounding \<Rightarrow> (string option \<Rightarrow> rat \<Rightarrow> byte list option) \<Rightarrow> MP4Remuxer \<Rightarrow> AudioSample Track \<Rightarrow> VideoSample Track
     \<Rightarrow> error + MP4Remuxer \<times> AudioSample Track \<times> VideoSample Track" where
  "remux fl getSilentFrame r audioTrack videoTrack =
     (if \<not> onMediaSegment_bound r then Inl IllegalState
      else
        (let r = (if \<not> dtsBaseInited r then calculateDtsBase r audioTrack videoTrack else r)
         in case remuxVideo r videoTrack False of
              Inl e \<Rightarrow> Inl e
            | Inr (r, videoTrack) \<Rightarrow>
                (case remuxAudio fl getSilentFrame r audioTrack False of
                   Inl e \<Rightarrow> Inl e
                 | Inr (r, audioTrack) \<Rightarrow> Inr (r, audioTrack, videoTrack))))"

text \<open>
  \<open>flushStashedSamples()\<close> remuxes the two stashed samples from two track objects of its
  own, created with \<open>sequenceNumber: 0\<close>.
\<close>

definition flushStashedSamples ::
  "rounding \<Rightarrow> (string option \<Rightarrow> rat \<Rightarrow> byte list option) \<Rightarrow> MP4Remuxer \<Rightarrow> error + MP4Remuxer" where
  "flushStashedSamples fl getSilentFrame r =
     (let videoSample = videoStashedLastSample r;
          audioSample = audioStashedLastSample r;
          videoTrack = \<lparr>tr_type = ''video'', tr_id = 1, sequenceNumber = 0, samples = [], tr_length = 0\<rparr>;
          videoTrack = (case videoSample of
                          None \<Rightarrow> videoTrack
                        | Some s \<Rightarrow> videoTrack\<lparr>samples := [s], tr_length := v_length s\<rparr>);
          audioTrack = \<lparr>tr_type = ''audio'', tr_id = 2, sequenceNumber = 0, samples = [], tr_length = 0\<rparr>;
          audioTrack = (case audioSample of
                          None \<Rightarrow> audioTrack
                        | Some s \<Rightarrow> audioTrack\<lparr>samples := [s], tr_length := a_length s\<rparr>);
          r = r\<lparr>videoStashedLastSample := None, audioStashedLastSample := None\<rparr>
      in case remuxVideo r videoTrack True of
           Inl e \<Rightarrow> Inl e
         | Inr (r, _) \<Rightarrow>
             (case remuxAudio fl getSilentFrame r audioTrack True of
                Inl e \<Rightarrow> Inl e
              | Inr (r, _) \<Rightarrow> Inr r))"

subsection \<open>Continuity of a segment\<close>

text \<open>
  \<open>chained dts duration xs\<close>: every element of \<open>xs\<close> but the last ends where the next one
  begins.
\<close>

fun chained :: "('a \<Rightarrow> int) \<Rightarrow> ('a \<Rightarrow> int) \<Rightarrow> 'a list \<Rightarrow> bool" where
  "chained d u (x # y # zs) = (d x + u x = d y \<and> chained d u (y # zs))"
| "chained d u [x] = True"
| "chained d u [] = True"

fun emitted_chained :: "emitted \<Rightarrow> bool" where
  "emitted_chained (VideoSegment s) = chained mv_dts mv_duration (seg_samples s)"
| "emitted_chained (AudioSegment s) = chained ma_dts ma_duration (seg_samples s)"

text \<open>
  Under rounding there is one place where an audio sample need not end where the next one
  begins: a sample with a gap gets the duration \<open>Math.round(refSampleDuration)\<close>, and the
  first silent frame after it the \<open>dts\<close> \<open>Math.round(dts + refSampleDuration)\<close>, where the
  sum is rounded first. \<open>rounded_link\<close> describes such a pair, \<open>audio_link\<close> a pair that is
  chained or such a pair, and \<open>linked P xs\<close> says that \<open>P\<close> holds for every two adjacent
  elements of \<open>xs\<close>.
\<close>

definition rounded_link :: "rounding \<Rightarrow> rat option \<Rightarrow> Mp4AudioSample \<Rightarrow> Mp4AudioSample \<Rightarrow> bool" where
  "rounded_link fl ref x y =
     (case ref of
        None \<Rightarrow> False
      | Some d \<Rightarrow>
          (case fl (of_int (ma_dts x) + d) of
             None \<Rightarrow> False
           | Some c \<Rightarrow>
               ma_duration x = js_round d \<and> ma_dts y = js_round c \<and>
               ma_originalDts y = ma_originalDts x))"

definition audio_link :: "rounding \<Rightarrow> rat option \<Rightarrow> Mp4AudioSample \<Rightarrow> Mp4AudioSample \<Rightarrow> bool" where
  "audio_link fl ref x y = (ma_dts x + ma_duration x = ma_dts y \<or> rounded_link fl ref x y)"

fun linked :: "('a \<Rightarrow> 'a \<Rightarrow> bool) \<Rightarrow> 'a list \<Rightarrow> bool" where
  "linked P (x # y # zs) = (P x y \<and> linked P (y # zs))"
| "linked P [x] = True"
| "linked P [] = True"

fun emitted_linked :: "rounding \<Rightarrow> rat option \<Rightarrow> emitted \<Rightarrow> bool" where
  "emitted_linked fl ref (VideoSegment s) = chained mv_dts mv_duration (seg_samples s)"
| "emitted_linked fl ref (AudioSegment s) = linked (audio_link fl ref) (seg_samples s)"

text \<open>The \<open>refSampleDuration\<close> of the audio metadata that the remuxer holds.\<close>

definition audio_ref :: "MP4Remuxer \<Rightarrow> rat option" where
  "audio_ref r = (case audioMeta r of None \<Rightarrow> None | Some meta \<Rightarrow> am_refSampleDuration meta)"

subsection \<open>The silent frames in closed form\<close>

text \<open>
  The values of \<open>intDts\<close> in the rounds of the silent frame loop: \<open>Math.round\<close> of
  \<open>currentDts\<close>, which starts at \<open>dts + refSampleDuration\<close> and grows by
  \<open>refSampleDuration\<close> per round, each sum rounded; \<open>None\<close> when one of them is not finite.
  \<open>silent_frames_at\<close> are the frames at these times, each lasting until the next one and
  the last one until \<open>end\<close>.
\<close>

fun silent_frame_times :: "rounding \<Rightarrow> nat \<Rightarrow> rat option \<Rightarrow> rat \<Rightarrow> int list option" where
  "silent_frame_times fl 0 currentDts ref = Some []"
| "silent_frame_times fl (Suc n) currentDts ref =
     (case currentDts of
        None \<Rightarrow> None
      | Some c \<Rightarrow> map_option ((#) (js_round c)) (silent_frame_times fl n (fl (c + ref)) ref))"

definition silent_frames_at :: "byte list \<Rightarrow> int \<Rightarrow> int list \<Rightarrow> int \<Rightarrow> Mp4AudioSample list" where
  "silent_frames_at silentUnit originalDts ts end =
     map (\<lambda>(t, t'). (silent_frame silentUnit originalDts t)\<lparr>ma_duration := t' - t\<rparr>)
       (zip ts (tl ts @ [end]))"

subsection \<open>Sessions\<close>

text \<open>
  A session is a sequence of calls of the remuxer's public methods. The demuxer owns the
  two tracks for the whole session (created with \<open>sequenceNumber: 0\<close>); before it calls
  \<open>onDataAvailable\<close>, which is bound to \<open>remux\<close>, it has pushed the new samples to the
  tracks and added their lengths to \<open>length\<close>.
\<close>

datatype action =
    DataAvailable "AudioSample list" "VideoSample list"
  | FlushStashedSamples
  | Seek
  | InsertDiscontinuity

record Pipeline =
  pl_remuxer :: MP4Remuxer
  pl_audioTrack :: "AudioSample Track"
  pl_videoTrack :: "VideoSample Track"

definition push_samples :: "('a \<Rightarrow> nat) \<Rightarrow> 'a Track \<Rightarrow> 'a list \<Rightarrow> 'a Track" where
  "push_samples len track new =
     track\<lparr>samples := samples track @ new, tr_length := tr_length track + sum_list (map len new)\<rparr>"

definition new_Pipeline :: "MP4Remuxer \<Rightarrow> Pipeline" where
  "new_Pipeline r =
     \<lparr>pl_remuxer = r,
      pl_audioTrack = \<lparr>tr_type = ''audio'', tr_id = 2, sequenceNumber = 0, samples = [], tr_length = 0\<rparr>,
      pl_videoTrack = \<lparr>tr_type = ''video'', tr_id = 1, sequenceNumber = 0, samples = [], tr_length = 0\<rparr>\<rparr>"

fun run_action ::
  "rounding \<Rightarrow> (string option \<Rightarrow> rat \<Rightarrow> byte list option) \<Rightarrow> Pipeline \<Rightarrow> action \<Rightarrow> error + Pipeline" where
  "run_action fl g p (DataAvailable audio video) =
     (case remux fl g (pl_remuxer p) (push_samples a_length (pl_audioTrack p) audio)
             (push_samples v_length (pl_videoTrack p) video) of
        Inl e \<Rightarrow> Inl e
      | Inr (r, audioTrack, videoTrack) \<Rightarrow>
          Inr \<lparr>pl_remuxer = r, pl_audioTrack = audioTrack, pl_videoTrack = videoTrack\<rparr>)"
| "run_action fl g p FlushStashedSamples =
     (case flushStashedSamples fl g (pl_remuxer p) of
        Inl e \<Rightarrow> Inl e
      | Inr r \<Rightarrow> Inr (p\<lparr>pl_remuxer := r\<rparr>))"
| "run_action fl g p Seek = Inr (p\<lparr>pl_remuxer := remuxer_seek (pl_remuxer p)\<rparr>)"
| "run_action fl g p InsertDiscontinuity = Inr (p\<lparr>pl_remuxer := insertDiscontinuity (pl_remuxer p)\<rparr>)"

fun run_session ::
  "rounding \<Rightarrow> (string option \<Rightarrow> rat \<Rightarrow> byte list option) \<Rightarrow> Pipeline \<Rightarrow> action list \<Rightarrow> error + Pipeline" where
  "run_session fl g p [] = Inr p"
| "run_session fl g p (a # as) =
     (case run_action fl g p a of Inl e \<Rightarrow> Inl e | Inr p' \<Rightarrow> run_session fl g p' as)"

text \<open>What the segments of a log carry, per track.\<close>

fun video_segments :: "emitted list \<Rightarrow> Mp4VideoSample MediaSegment list" where
  "video_segments [] = []"
| "video_segments (VideoSegment s # es) = s # video_segments es"
| "video_segments (AudioSegment s # es) = video_segments es"

fun audio_segments :: "emitted list \<Rightarrow> Mp4AudioSample MediaSegment list" where
  "audio_segments [] = []"
| "audio_segments (AudioSegment s # es) = s # audio_segments es"
| "audio_segments (VideoSegment s # es) = audio_segments es"

definition moof_sequenceNumbers :: "'m MediaSegment list \<Rightarrow> nat list" where
  "moof_sequenceNumbers segs = map fst (List.map_filter seg_moof segs)"

subsection \<open>Example streams\<close>

text \<open>
  A video track at 25 frames per second and an AAC track with a reference sample duration
  of 23 ms; every video sample has one NAL unit of one byte, every audio sample a unit of
  one byte. No silent frame is available from \<open>no_silent_frame\<close>, a one-byte frame from
  \<open>one_silent_frame\<close>.
\<close>

definition ex_videoMeta :: VideoMeta where
  "ex_videoMeta =
     \<lparr>vm_id = 1, vm_timescale = 1000, vm_duration = Finite 0, codecWidth = None, codecHeight = None,
      presentWidth = None, presentHeight = None, vm_profile = None, vm_level = None,
      bitDepth = None, vm_chromaFormat = None, sarRatio = None, frameRate = None,
      vm_refSampleDuration = Some 40, vm_codec = Some ''avc1.640028'', avcc = None\<rparr>"

definition ex_audioMeta :: AudioMeta where
  "ex_audioMeta =
     \<lparr>am_id = 2, am_timescale = 1000, am_duration = Finite 0, am_audioSampleRate = 44100,
      am_channelCount = 2, am_codec = Some ''mp4a.40.2'', am_originalCodec = Some ''mp4a.40.2'',
      am_config = None, am_refSampleDuration = Some 23\<rparr>"

definition ex_remuxer :: MP4Remuxer where
  "ex_remuxer =
     (new_MP4Remuxer False True False False False False)
       \<lparr>audioMeta := Some ex_audioMeta, videoMeta := Some ex_videoMeta,
        onMediaSegment_bound := True\<rparr>"

definition video_at :: "int \<Rightarrow> VideoSample" where
  "video_at t =
     \<lparr>v_units = [\<lparr>nalu_type = 1, nalu_data = [0]\<rparr>], v_length = 1, v_isKeyframe = False,
      v_dts = t, v_cts = 0, v_pts = t, v_fileposition = None\<rparr>"

definition audio_at :: "int \<Rightarrow> AudioSample" where
  "audio_at t = \<lparr>a_unit = [0], a_length = 1, a_dts = t, a_pts = t\<rparr>"

definition no_silent_frame :: "string option \<Rightarrow> rat \<Rightarrow> byte list option" where
  "no_silent_frame codec channelCount = None"

definition one_silent_frame :: "string option \<Rightarrow> rat \<Rightarrow> byte list option" where
  "one_silent_frame codec channelCount = Some [0]"

text \<open>
  A first batch of the example streams: three video samples, and three audio samples with
  a gap of 100 ms after the first one.
\<close>

definition ex_videoTrack :: "VideoSample Track" where
  "ex_videoTrack =
     push_samples v_length (pl_videoTrack (new_Pipeline ex_remuxer))
       [video_at 0, video_at 40, video_at 80]"

definition ex_audioTrack :: "AudioSample Track" where
  "ex_audioTrack =
     push_samples a_length (pl_audioTrack (new_Pipeline ex_remuxer))
       [audio_at 0, audio_at 100, audio_at 123]"

definition ex_ready :: MP4Remuxer where
  "ex_ready = calculateDtsBase ex_remuxer ex_audioTrack ex_videoTrack"

definition ex_video_result :: "error + MP4Remuxer \<times> VideoSample Track" where
  "ex_video_result = remuxVideo ex_ready ex_videoTrack False"

definition ex_audio_result :: "error + MP4Remuxer \<times> AudioSample Track" where
  "ex_audio_result = remuxAudio to_double one_silent_frame ex_ready ex_audioTrack False"

definition ex_audio_exact :: "error + MP4Remuxer \<times> AudioSample Track" where
  "ex_audio_exact = remuxAudio exact one_silent_frame ex_ready ex_audioTrack False"

text \<open>
  The reference sample duration of AAC at 48 kHz, \<open>1024 / 48000 * 1000\<close> as the demuxer
  computes it: the double next below \<open>64 / 3\<close>.
\<close>

definition ref_48kHz :: rat where
  "ref_48kHz = 6004799503160661 / 281474976710656"

text \<open>The \<open>dts\<close> and \<open>duration\<close> of the samples of every segment of a log.\<close>

fun timeline :: "emitted \<Rightarrow> (int \<times> int) list" where
  "timeline (VideoSegment s) = map (\<lambda>x. (mv_dts x, mv_duration x)) (seg_samples s)"
| "timeline (AudioSegment s) = map (\<lambda>x. (ma_dts x, ma_duration x)) (seg_samples s)"

text \<open>
  Two sessions on the example video track. In the first one the two samples of the first
  batch carry the same timestamp, and a seek follows. In the second one the stashed sample
  is flushed after two batches.
\<close>

definition ex_seek_session :: "action list" where
  "ex_seek_session =
     [DataAvailable [] [video_at 1000, video_at 1000], Seek,
      DataAvailable [] [video_at 6000, video_at 6040]]"

definition ex_flush_session :: "action list" where
  "ex_flush_session =
     [DataAvailable [] [video_at 0, video_at 40, video_at 80],
      DataAvailable [] [video_at 120, video_at 160], FlushStashedSamples]"

text \<open>The \<open>originalDts\<close> and \<open>dts\<close> of the first sample of every segment of a log.\<close>

fun first_sample :: "emitted \<Rightarrow> int \<times> int" where
  "first_sample (VideoSegment s) = (mv_originalDts (hd (seg_samples s)), mv_dts (hd (seg_samples s)))"
| "first_sample (AudioSegment s) = (ma_originalDts (hd (seg_samples s)), ma_dts (hd (seg_samples s)))"

section \<open>Proofs: segment list lookups\<close>


lemma js_index_Some_iff: "js_index xs i = Some x \<longleftrightarrow> 0 \<le> i \<and> i < int (length xs) \<and> x = xs ! nat i"
  by (auto simp: js_index_def)

lemma js_index_None_iff: "js_index xs i = None \<longleftrightarrow> i < 0 \<or> int (length xs) \<le> i"
  by (auto simp: js_index_def)

lemma segment_search_loop_exit:
  "\<not> lbound \<le> ubound \<Longrightarrow> segment_search_loop list obd idx lbound ubound = Inr idx"
  by (subst segment_search_loop.simps) simp

lemma segment_search_loop_step:
  assumes "lbound \<le> ubound" "mid = lbound + (ubound - lbound) div 2"
  shows "segment_search_loop list obd idx lbound ubound =
     (case segment_probe list obd mid of
        Inl e \<Rightarrow> Inl e
      | Inr Hit \<Rightarrow> Inr mid
      | Inr GoRight \<Rightarrow> segment_search_loop list obd idx (mid + 1) ubound
      | Inr GoLeft \<Rightarrow> segment_search_loop list obd idx lbound (mid - 1))"
  unfolding assms(2) using assms(1)
  by (subst segment_search_loop.simps) (simp add: Let_def)

lemma segment_search_loop_range:
  assumes "segment_search_loop list obd idx lbound ubound = Inr r"
    and "0 \<le> lbound" "ubound \<le> int (length list) - 1" "0 \<le> idx" "idx \<le> int (length list) - 1"
  shows "0 \<le> r \<and> r \<le> int (length list) - 1"
  using assms
proof (induction list obd idx lbound ubound rule: segment_search_loop.induct)
  case (1 list obd idx lbound ubound)
  show ?case
  proof (cases "lbound \<le> ubound")
    case False
    with "1.prems" show ?thesis by (simp add: segment_search_loop_exit)
  next
    case True
    define mid where "mid = lbound + (ubound - lbound) div 2"
    have mid: "lbound \<le> mid" "mid \<le> ubound" using True by (auto simp: mid_def)
    note unfold = segment_search_loop_step [OF True mid_def, of list obd idx]
    show ?thesis
    proof (cases "segment_probe list obd mid")
      case (Inl e)
      with unfold "1.prems"(1) show ?thesis by simp
    next
      case (Inr p)
      show ?thesis
      proof (cases p)
        case Hit
        with Inr unfold "1.prems" mid show ?thesis by simp
      next
        case GoRight
        with Inr unfold "1.prems"(1) have "segment_search_loop list obd idx (mid + 1) ubound = Inr r" by simp
        from "1.IH"(1) [OF True mid_def Inr GoRight this] "1.prems" mid show ?thesis by simp
      next
        case GoLeft
        with Inr unfold "1.prems"(1) have "segment_search_loop list obd idx lbound (mid - 1) = Inr r" by simp
        from "1.IH"(2) [OF True mid_def Inr GoLeft this] "1.prems" mid show ?thesis by simp
      qed
    qed
  qed
qed


lemma segment_probe_ok:
  assumes "all_lastSample list" "0 \<le> mid" "mid \<le> int (length list) - 1"
  shows "\<exists>p. segment_probe list obd mid = Inr p"
proof (cases "mid = int (length list) - 1")
  case True
  then show ?thesis by (simp add: segment_probe_def)
next
  case False
  with assms have r: "0 \<le> mid" "mid < int (length list)" "0 \<le> mid + 1" "mid + 1 < int (length list)"
    by auto
  from r have "nat mid < length list" by simp
  with assms(1) have "lastSample (list ! nat mid) \<noteq> None"
    by (simp add: all_lastSample_def list_all_length)
  then obtain s where s: "lastSample (list ! nat mid) = Some s" by auto
  show ?thesis
    using r s False by (simp add: segment_probe_def lastSample_originalDts_def js_index_def)
qed

lemma segment_search_loop_ok:
  assumes "all_lastSample list" "0 \<le> lbound" "ubound \<le> int (length list) - 1"
  shows "\<exists>r. segment_search_loop list obd idx lbound ubound = Inr r"
  using assms
proof (induction list obd idx lbound ubound rule: segment_search_loop.induct)
  case (1 list obd idx lbound ubound)
  show ?case
  proof (cases "lbound \<le> ubound")
    case False
    then show ?thesis by (simp add: segment_search_loop_exit)
  next
    case True
    define mid where "mid = lbound + (ubound - lbound) div 2"
    have mid: "lbound \<le> mid" "mid \<le> ubound" using True by (auto simp: mid_def)
    note unfold = segment_search_loop_step [OF True mid_def, of list obd idx]
    from segment_probe_ok [of list mid obd] "1.prems" mid
    obtain p where p: "segment_probe list obd mid = Inr p" by auto
    show ?thesis
    proof (cases p)
      case Hit
      with p unfold show ?thesis by simp
    next
      case GoRight
      from "1.IH"(1) [OF True mid_def p GoRight] "1.prems" mid
      show ?thesis using p GoRight unfold by simp
    next
      case GoLeft
      from "1.IH"(2) [OF True mid_def p GoLeft] "1.prems" mid
      show ?thesis using p GoLeft unfold by simp
    qed
  qed
qed

lemma syncpoint_back_loop_ok:
  assumes "segmentIdx \<le> int (length list) - 1"
  shows "\<exists>sps. syncpoint_back_loop list sps0 segmentIdx = Inr sps"
  using assms
proof (induction list sps0 segmentIdx rule: syncpoint_back_loop.induct)
  case (1 list sps segmentIdx)
  show ?case
  proof (cases "length sps = 0 \<and> segmentIdx > 0")
    case False
    then show ?thesis by (subst syncpoint_back_loop.simps) auto
  next
    case True
    with "1.prems" have "js_index list (segmentIdx - 1) = Some (list ! nat (segmentIdx - 1))"
      by (simp add: js_index_def)
    with "1.IH" [OF True this] "1.prems" True show ?thesis
      by (subst syncpoint_back_loop.simps) simp
  qed
qed


lemma search_empty: "msil_list m = [] \<Longrightarrow> searchNearestSegmentBefore m q = Inr (- 2)"
  by (simp add: searchNearestSegmentBefore_def)

lemma search_before_first:
  "msil_list m \<noteq> [] \<Longrightarrow> q < originalBeginDts (hd (msil_list m)) \<Longrightarrow>
   searchNearestSegmentBefore m q = Inr (- 1)"
  by (simp add: searchNearestSegmentBefore_def Let_def hd_conv_nth)

lemma search_in_range:
  assumes "msil_list m \<noteq> []" "originalBeginDts (hd (msil_list m)) \<le> q"
    and "searchNearestSegmentBefore m q = Inr i"
  shows "0 \<le> i \<and> i \<le> int (length (msil_list m)) - 1"
proof -
  from assms have "segment_search_loop (msil_list m) q 0 0 (int (length (msil_list m)) - 1) = Inr i"
    by (simp add: searchNearestSegmentBefore_def Let_def hd_conv_nth)
  from segment_search_loop_range [OF this] assms(1) show ?thesis
    by (cases "msil_list m") auto
qed

lemma search_ok:
  assumes "msil_list m \<noteq> []" "originalBeginDts (hd (msil_list m)) \<le> q" "all_lastSample (msil_list m)"
  shows "\<exists>i. searchNearestSegmentBefore m q = Inr i"
proof -
  have "\<exists>i. segment_search_loop (msil_list m) q 0 0 (int (length (msil_list m)) - 1) = Inr i"
    by (rule segment_search_loop_ok [OF assms(3)]) simp_all
  with assms(1,2) show ?thesis
    by (simp add: searchNearestSegmentBefore_def Let_def hd_conv_nth)
qed

text \<open>
  Claim C10. \<open>MediaSegmentInfoList.getLastSyncPointBefore\<close> is partial. On an empty list
  the internal search index is \<open>-2\<close>, and when the queried \<open>originalBeginDts\<close> precedes
  the first segment's it is \<open>-1\<close>; in both cases the element read gives \<open>undefined\<close> and
  reading its \<open>syncPoints\<close> throws. Hence the operation returns a result only if the list
  is non-empty and the query is not before the first segment; on such inputs it does return
  when every segment has its \<open>lastSample\<close> set.
\<close>

theorem getLastSyncPointBefore_partial:
  "(msil_list m = [] \<longrightarrow>
      searchNearestSegmentBefore m q = Inr (- 2) \<and> getLastSyncPointBefore m q = Inl TypeError)
   \<and> (msil_list m \<noteq> [] \<and> q < originalBeginDts (hd (msil_list m)) \<longrightarrow>
      searchNearestSegmentBefore m q = Inr (- 1) \<and> getLastSyncPointBefore m q = Inl TypeError)
   \<and> (\<forall>r. getLastSyncPointBefore m q = Inr r \<longrightarrow>
      msil_list m \<noteq> [] \<and> originalBeginDts (hd (msil_list m)) \<le> q)
   \<and> (msil_list m \<noteq> [] \<and> originalBeginDts (hd (msil_list m)) \<le> q \<and> all_lastSample (msil_list m) \<longrightarrow>
      (\<exists>r. getLastSyncPointBefore m q = Inr r))"
proof -
  have a: "getLastSyncPointBefore m q = Inl TypeError" if "msil_list m = []"
    using that search_empty [OF that, of q]
    by (simp add: getLastSyncPointBefore_def js_index_def)
  have b: "getLastSyncPointBefore m q = Inl TypeError"
    if "msil_list m \<noteq> []" "q < originalBeginDts (hd (msil_list m))"
    using search_before_first [OF that]
    by (simp add: getLastSyncPointBefore_def js_index_def)
  have c: "msil_list m \<noteq> [] \<and> originalBeginDts (hd (msil_list m)) \<le> q"
    if "getLastSyncPointBefore m q = Inr r" for r
  proof (rule ccontr)
    assume "\<not> ?thesis"
    then consider "msil_list m = []" | "msil_list m \<noteq> []" "q < originalBeginDts (hd (msil_list m))"
      by fastforce
    then have "getLastSyncPointBefore m q = Inl TypeError"
      by cases (auto intro: a b)
    with that show False by simp
  qed
  have d: "\<exists>r. getLastSyncPointBefore m q = Inr r"
    if h: "msil_list m \<noteq> []" "originalBeginDts (hd (msil_list m)) \<le> q" "all_lastSample (msil_list m)"
  proof -
    from search_ok [OF h] obtain i where i: "searchNearestSegmentBefore m q = Inr i" by auto
    from search_in_range [OF h(1,2) i] have r: "0 \<le> i" "i \<le> int (length (msil_list m)) - 1"
      by auto
    then have j: "js_index (msil_list m) i = Some (msil_list m ! nat i)"
      by (simp add: js_index_def)
    from syncpoint_back_loop_ok [OF r(2), of "syncPoints (msil_list m ! nat i)"]
    obtain sps where "syncpoint_back_loop (msil_list m) (syncPoints (msil_list m ! nat i)) i = Inr sps"
      by auto
    with i j show ?thesis by (simp add: getLastSyncPointBefore_def)
  qed
  from a b c d search_empty search_before_first show ?thesis by blast
qed

theorem getLastSyncPointBefore_partial_witness:
  "msil_list (new_MediaSegmentInfoList ''video'') = []
   \<and> getLastSyncPointBefore (new_MediaSegmentInfoList ''video'') 0 = Inl TypeError
   \<and> msil_list ex_segment_list \<noteq> []
   \<and> 5 < originalBeginDts (hd (msil_list ex_segment_list))
   \<and> getLastSyncPointBefore ex_segment_list 5 = Inl TypeError
   \<and> originalBeginDts (hd (msil_list ex_segment_list)) \<le> 20
   \<and> all_lastSample (msil_list ex_segment_list)
   \<and> getLastSyncPointBefore ex_segment_list 20 = Inr (Some ex_sample)"
proof -
  have e: "getLastSyncPointBefore ex_segment_list 20 = Inr (Some ex_sample)"
    by code_simp
  have h: "msil_list (new_MediaSegmentInfoList ''video'') = []"
    "msil_list ex_segment_list \<noteq> []"
    "5 < originalBeginDts (hd (msil_list ex_segment_list))"
    "originalBeginDts (hd (msil_list ex_segment_list)) \<le> 20"
    "all_lastSample (msil_list ex_segment_list)"
    by (simp_all add: new_MediaSegmentInfoList_def ex_segment_list_def ex_segment_def all_lastSample_def)
  from getLastSyncPointBefore_partial [of "new_MediaSegmentInfoList ''video''" 0]
       getLastSyncPointBefore_partial [of ex_segment_list 5]
       getLastSyncPointBefore_partial [of ex_segment_list 20] e h
  show ?thesis by simp
qed
section \<open>Proofs: keyframe list lookup\<close>



lemma idr_search_loop_exit:
  "\<not> lbound \<le> ubound \<Longrightarrow> idr_search_loop list d idx lbound ubound = Inr idx"
  by (subst idr_search_loop.simps) simp

lemma idr_search_loop_step:
  assumes "lbound \<le> ubound" "mid = lbound + (ubound - lbound) div 2"
  shows "idr_search_loop list d idx lbound ubound =
     (case idr_probe list d mid of
        Inl e \<Rightarrow> Inl e
      | Inr Hit \<Rightarrow> Inr mid
      | Inr GoRight \<Rightarrow> idr_search_loop list d idx (mid + 1) ubound
      | Inr GoLeft \<Rightarrow> idr_search_loop list d idx lbound (mid - 1))"
  unfolding assms(2) using assms(1)
  by (subst idr_search_loop.simps) (simp add: Let_def)

lemma strict_dts_mono:
  assumes "sorted_wrt (\<lambda>a b. si_dts a < si_dts b) list"
    and "0 \<le> i" "i < j" "j < int (length list)"
  shows "dts_at list i < dts_at list j"
proof -
  from assms(2-4) have "nat i < nat j" "nat j < length list" by auto
  with assms(1) show ?thesis
    unfolding dts_at_def by (rule sorted_wrt_nth_less)
qed

lemma strict_dts_mono_le:
  assumes "sorted_wrt (\<lambda>a b. si_dts a < si_dts b) list"
    and "0 \<le> i" "i \<le> j" "j < int (length list)"
  shows "dts_at list i \<le> dts_at list j"
proof (cases "i = j")
  case True
  then show ?thesis by simp
next
  case False
  with assms(3) have "i < j" by simp
  from strict_dts_mono [OF assms(1,2) this assms(4)] show ?thesis by simp
qed

text \<open>What one iteration decides, for an index inside the list.\<close>

lemma idr_probe_cases:
  assumes "sorted_wrt (\<lambda>a b. si_dts a < si_dts b) list"
    and "0 \<le> mid" "mid \<le> int (length list) - 1"
  shows "(idr_probe list d mid = Inr Hit \<and>
            (mid = int (length list) - 1 \<or> (dts_at list mid \<le> d \<and> d < dts_at list (mid + 1))))
       \<or> (idr_probe list d mid = Inr GoRight \<and> mid < int (length list) - 1 \<and> dts_at list (mid + 1) \<le> d)
       \<or> (idr_probe list d mid = Inr GoLeft \<and> mid < int (length list) - 1 \<and> d < dts_at list mid)"
proof (cases "mid = int (length list) - 1")
  case True
  then show ?thesis by (simp add: idr_probe_def)
next
  case False
  with assms have r: "0 \<le> mid" "mid < int (length list)" "0 \<le> mid + 1" "mid + 1 < int (length list)"
    by auto
  have lt: "dts_at list mid < dts_at list (mid + 1)"
    by (rule strict_dts_mono [OF assms(1) r(1) _ r(4)]) simp
  have p: "idr_probe list d mid =
      (if d \<ge> dts_at list mid then
         (if d < dts_at list (mid + 1) then Inr Hit
          else if dts_at list mid < d then Inr GoRight else Inr GoLeft)
       else if dts_at list mid < d then Inr GoRight else Inr GoLeft)"
    using r False by (simp add: idr_probe_def js_index_def dts_at_def)
  show ?thesis using lt False r unfolding p by auto
qed

lemma idr_search_loop_answer:
  assumes "sorted_wrt (\<lambda>a b. si_dts a < si_dts b) list"
    and "0 \<le> lbound" "lbound \<le> int (length list) - 1" "dts_at list lbound \<le> d"
    and "ubound \<le> int (length list) - 1" "lbound \<le> ubound + 1"
    and "ubound = int (length list) - 1 \<or> d < dts_at list (ubound + 1)"
  shows "\<exists>a. idr_search_loop list d idx lbound ubound = Inr a \<and> answer_at list d a"
  using assms
proof (induction list d idx lbound ubound rule: idr_search_loop.induct)
  case (1 list d idx lbound ubound)
  note srt = "1.prems"(1)
  have le: "lbound \<le> ubound"
  proof (rule ccontr)
    assume "\<not> lbound \<le> ubound"
    with "1.prems"(6) have u: "lbound = ubound + 1" by simp
    with "1.prems"(3,7) have "d < dts_at list lbound" by auto
    with "1.prems"(4) show False by simp
  qed
  define mid where "mid = lbound + (ubound - lbound) div 2"
  have mid: "lbound \<le> mid" "mid \<le> ubound" using le by (auto simp: mid_def)
  with "1.prems" have midr: "0 \<le> mid" "mid \<le> int (length list) - 1" by auto
  note unfold = idr_search_loop_step [OF le mid_def, of list d idx]
  from idr_probe_cases [OF srt midr, of d]
  consider (hit) "idr_probe list d mid = Inr Hit"
      "mid = int (length list) - 1 \<or> (dts_at list mid \<le> d \<and> d < dts_at list (mid + 1))"
    | (right) "idr_probe list d mid = Inr GoRight" "mid < int (length list) - 1"
      "dts_at list (mid + 1) \<le> d"
    | (left) "idr_probe list d mid = Inr GoLeft" "mid < int (length list) - 1" "d < dts_at list mid"
    by blast
  then show ?case
  proof cases
    case hit
    have "dts_at list mid \<le> d"
    proof (cases "mid = int (length list) - 1")
      case True
      with mid "1.prems"(5) have "ubound = mid" by simp
      with mid_def le have "lbound = mid" by auto
      with "1.prems"(4) show ?thesis by simp
    next
      case False
      with hit(2) show ?thesis by simp
    qed
    with hit(2) midr have "answer_at list d mid" by (auto simp: answer_at_def)
    with unfold hit(1) show ?thesis by simp
  next
    case right
    have "\<exists>a. idr_search_loop list d idx (mid + 1) ubound = Inr a \<and> answer_at list d a"
      using "1.prems" mid midr right(2,3)
      by (intro "1.IH"(1) [OF le mid_def right(1) refl]) auto
    with unfold right(1) show ?thesis by simp
  next
    case left
    have "\<exists>a. idr_search_loop list d idx lbound (mid - 1) = Inr a \<and> answer_at list d a"
      using "1.prems" mid midr left(2,3)
      by (intro "1.IH"(2) [OF le mid_def left(1) refl]) auto
    with unfold left(1) show ?thesis by simp
  qed
qed

lemma answer_at_maximal:
  assumes "sorted_wrt (\<lambda>a b. si_dts a < si_dts b) list" "answer_at list d a"
    and "t \<in> set list" "si_dts t \<le> d"
  shows "si_dts t \<le> dts_at list a"
proof -
  from assms(3) obtain j where j: "j < length list" "t = list ! j"
    by (auto simp: in_set_conv_nth)
  then have tj: "si_dts t = dts_at list (int j)" by (simp add: dts_at_def)
  from assms(2) have a: "0 \<le> a" "a \<le> int (length list) - 1" "dts_at list a \<le> d"
    "a = int (length list) - 1 \<or> d < dts_at list (a + 1)"
    by (auto simp: answer_at_def)
  show ?thesis
  proof (cases "int j \<le> a")
    case True
    from strict_dts_mono_le [OF assms(1) _ True] a(2) tj show ?thesis by simp
  next
    case False
    then have ja: "a + 1 \<le> int j" by simp
    with j(1) a(4) have "d < dts_at list (a + 1)" by auto
    moreover have "dts_at list (a + 1) \<le> dts_at list (int j)"
      using a(1) j(1) by (intro strict_dts_mono_le [OF assms(1) _ ja]) auto
    ultimately show ?thesis using assms(4) tj by simp
  qed
qed

text \<open>The lookup on a non-empty list with strictly increasing \<open>dts\<close>.\<close>

lemma lookup_below_first:
  assumes "list \<noteq> []" "d < si_dts (hd list)"
  shows "getLastSyncPointBeforeDts list d = Inr (Some (hd list))"
  using assms
  by (simp add: getLastSyncPointBeforeDts_def Let_def hd_conv_nth idr_search_loop_exit js_index_def)

lemma lookup_from_first:
  assumes "list \<noteq> []" "sorted_wrt (\<lambda>a b. si_dts a < si_dts b) list" "si_dts (hd list) \<le> d"
  shows "\<exists>a. getLastSyncPointBeforeDts list d = Inr (Some (list ! nat a)) \<and> answer_at list d a"
proof -
  from assms(1) have n: "0 < length list" by simp
  have d0: "dts_at list 0 \<le> d" using assms(1,3) by (simp add: dts_at_def hd_conv_nth)
  have "\<exists>a. idr_search_loop list d 0 0 (int (length list) - 1) = Inr a \<and> answer_at list d a"
    using n d0 by (intro idr_search_loop_answer [OF assms(2)]) auto
  then obtain a where a: "idr_search_loop list d 0 0 (int (length list) - 1) = Inr a"
    "answer_at list d a" by auto
  from a(2) have "js_index list a = Some (list ! nat a)"
    by (simp add: answer_at_def js_index_def)
  with a assms(1,3) show ?thesis
    by (auto simp: getLastSyncPointBeforeDts_def Let_def hd_conv_nth)
qed

lemma lookup_spec:
  assumes "list \<noteq> []" "sorted_wrt (\<lambda>a b. si_dts a < si_dts b) list"
  shows "\<exists>s. getLastSyncPointBeforeDts list d = Inr (Some s) \<and> s \<in> set list
           \<and> (d < si_dts (hd list) \<longrightarrow> s = hd list)
           \<and> (si_dts (hd list) \<le> d \<longrightarrow>
                 si_dts s \<le> d \<and> (\<forall>t \<in> set list. si_dts t \<le> d \<longrightarrow> si_dts t \<le> si_dts s))"
proof (cases "d < si_dts (hd list)")
  case True
  from lookup_below_first [OF assms(1) True] assms(1) True show ?thesis by simp
next
  case False
  then have ge: "si_dts (hd list) \<le> d" by simp
  from lookup_from_first [OF assms ge] obtain a
    where a: "getLastSyncPointBeforeDts list d = Inr (Some (list ! nat a))" "answer_at list d a"
    by auto
  from a(2) have "0 \<le> a" "a \<le> int (length list) - 1" "dts_at list a \<le> d"
    by (auto simp: answer_at_def)
  with assms(1) have r: "nat a < length list" "dts_at list a \<le> d" by auto
  have m: "\<forall>t \<in> set list. si_dts t \<le> d \<longrightarrow> si_dts t \<le> si_dts (list ! nat a)"
    using answer_at_maximal [OF assms(2) a(2)] by (simp add: dts_at_def)
  from a(1) r m ge show ?thesis by (auto simp: dts_at_def)
qed

lemma hd_least:
  assumes "sorted_wrt (\<lambda>a b. si_dts a < si_dts b) list" "s \<in> set list"
  shows "si_dts (hd list) \<le> si_dts s"
proof (cases list)
  case Nil
  with assms(2) show ?thesis by simp
next
  case (Cons x xs)
  with assms show ?thesis by auto
qed

lemma lookup_mono:
  assumes "list \<noteq> []" "sorted_wrt (\<lambda>a b. si_dts a < si_dts b) list" "d \<le> d'"
    and "getLastSyncPointBeforeDts list d = Inr (Some s)"
    and "getLastSyncPointBeforeDts list d' = Inr (Some s')"
  shows "si_dts s \<le> si_dts s'"
proof -
  from lookup_spec [OF assms(1,2), of d] assms(4)
  have s: "s \<in> set list" "d < si_dts (hd list) \<longrightarrow> s = hd list" "si_dts (hd list) \<le> d \<longrightarrow> si_dts s \<le> d"
    by auto
  from lookup_spec [OF assms(1,2), of d'] assms(5)
  have s': "s' \<in> set list"
    "si_dts (hd list) \<le> d' \<longrightarrow> (\<forall>t \<in> set list. si_dts t \<le> d' \<longrightarrow> si_dts t \<le> si_dts s')"
    by auto
  show ?thesis
  proof (cases "d < si_dts (hd list)")
    case True
    with s(2) have "s = hd list" by simp
    with hd_least [OF assms(2) s'(1)] show ?thesis by simp
  next
    case False
    with s(3) assms(3) have "si_dts s \<le> d'" "si_dts (hd list) \<le> d'" by auto
    with s'(2) s(1) show ?thesis by blast
  qed
qed

text \<open>
  Claim C9 as stated fails: at a query equal to an element's \<open>dts\<close> the lookup returns
  that element, whose \<open>dts\<close> is not strictly less than the query, although the list
  holds an element strictly below the query.
\<close>

theorem getLastSyncPointBeforeDts_not_strict:
  "getLastSyncPointBeforeDts ex_idr_list 10 = Inr (Some (idr_sample 10))
   \<and> \<not> si_dts (idr_sample 10) < 10
   \<and> idr_sample 0 \<in> set ex_idr_list \<and> si_dts (idr_sample 0) < 10"
  by code_simp

text \<open>
  Claim C9, amended. On an empty list \<open>getLastSyncPointBeforeDts\<close> returns \<open>null\<close>. On a
  non-empty list whose \<open>dts\<close> values are strictly increasing it returns an element of
  the list: the first element when the query is below the first \<open>dts\<close>, and otherwise
  the element with the largest \<open>dts\<close> less than or equal to the query. The \<open>dts\<close> of
  the returned element is monotonically non-decreasing in the query.
\<close>

theorem getLastSyncPointBeforeDts_amended:
  "(list = [] \<longrightarrow> getLastSyncPointBeforeDts list d = Inr None)
   \<and> (list \<noteq> [] \<and> sorted_wrt (\<lambda>a b. si_dts a < si_dts b) list \<longrightarrow>
        (\<exists>s. getLastSyncPointBeforeDts list d = Inr (Some s) \<and> s \<in> set list
           \<and> (d < si_dts (hd list) \<longrightarrow> s = hd list)
           \<and> (si_dts (hd list) \<le> d \<longrightarrow>
                 si_dts s \<le> d \<and> (\<forall>t \<in> set list. si_dts t \<le> d \<longrightarrow> si_dts t \<le> si_dts s))
           \<and> (\<forall>d' s'. d \<le> d' \<and> getLastSyncPointBeforeDts list d' = Inr (Some s') \<longrightarrow>
                 si_dts s \<le> si_dts s')))"
proof (intro conjI impI)
  assume "list = []"
  then show "getLastSyncPointBeforeDts list d = Inr None"
    by (simp add: getLastSyncPointBeforeDts_def)
next
  assume h: "list \<noteq> [] \<and> sorted_wrt (\<lambda>a b. si_dts a < si_dts b) list"
  then have ne: "list \<noteq> []" and srt: "sorted_wrt (\<lambda>a b. si_dts a < si_dts b) list" by auto
  from lookup_spec [OF ne srt, of d] obtain s where
    s: "getLastSyncPointBeforeDts list d = Inr (Some s)" "s \<in> set list"
       "d < si_dts (hd list) \<longrightarrow> s = hd list"
       "si_dts (hd list) \<le> d \<longrightarrow>
          si_dts s \<le> d \<and> (\<forall>t \<in> set list. si_dts t \<le> d \<longrightarrow> si_dts t \<le> si_dts s)"
    by blast
  have m: "\<forall>d' s'. d \<le> d' \<and> getLastSyncPointBeforeDts list d' = Inr (Some s') \<longrightarrow>
                 si_dts s \<le> si_dts s'"
    using lookup_mono [OF ne srt _ s(1)] by blast
  from s m show "\<exists>s. getLastSyncPointBeforeDts list d = Inr (Some s) \<and> s \<in> set list
           \<and> (d < si_dts (hd list) \<longrightarrow> s = hd list)
           \<and> (si_dts (hd list) \<le> d \<longrightarrow>
                 si_dts s \<le> d \<and> (\<forall>t \<in> set list. si_dts t \<le> d \<longrightarrow> si_dts t \<le> si_dts s))
           \<and> (\<forall>d' s'. d \<le> d' \<and> getLastSyncPointBeforeDts list d' = Inr (Some s') \<longrightarrow>
                 si_dts s \<le> si_dts s')"
    by blast
qed

theorem getLastSyncPointBeforeDts_amended_witness:
  "getLastSyncPointBeforeDts [] 10 = Inr None
   \<and> ex_idr_list \<noteq> [] \<and> sorted_wrt (\<lambda>a b. si_dts a < si_dts b) ex_idr_list
   \<and> si_dts (hd ex_idr_list) \<le> 10
   \<and> getLastSyncPointBeforeDts ex_idr_list 10 = Inr (Some (idr_sample 10))
   \<and> - 5 < si_dts (hd ex_idr_list)
   \<and> getLastSyncPointBeforeDts ex_idr_list (- 5) = Inr (Some (idr_sample 0))
   \<and> (10 :: int) \<le> 15
   \<and> getLastSyncPointBeforeDts ex_idr_list 15 = Inr (Some (idr_sample 10))
   \<and> si_dts (idr_sample 10) \<le> si_dts (idr_sample 10)"
proof -
  have e: "getLastSyncPointBeforeDts ex_idr_list 10 = Inr (Some (idr_sample 10))"
    "getLastSyncPointBeforeDts ex_idr_list (- 5) = Inr (Some (idr_sample 0))"
    "getLastSyncPointBeforeDts ex_idr_list 15 = Inr (Some (idr_sample 10))"
    by code_simp+
  have h: "ex_idr_list \<noteq> []" "sorted_wrt (\<lambda>a b. si_dts a < si_dts b) ex_idr_list"
    "si_dts (hd ex_idr_list) \<le> 10" "- 5 < si_dts (hd ex_idr_list)"
    by (simp_all add: ex_idr_list_def idr_sample_def new_SampleInfo_def)
  from getLastSyncPointBeforeDts_amended [of "[]" 10]
       getLastSyncPointBeforeDts_amended [of ex_idr_list 10]
       getLastSyncPointBeforeDts_amended [of ex_idr_list "- 5"] e h
  show ?thesis by simp
qed

section \<open>Proofs: I/O controller pause\<close>

text \<open>
  Claim C6 as stated fails: with 100 unconsumed bytes stashed from offset 5000, \<open>pause\<close>
  records 5000 as the offset to resume from, not \<open>stashByteStart + stashUsed = 5100\<close>.
\<close>

theorem pause_resume_offset_not_stash_end:
  "ioc_isWorking (ex_controller 100)
   \<and> stashUsed (ex_controller 100) \<noteq> 0
   \<and> map_sum id resumeFrom (pause ex_abort (ex_controller 100)) = Inr 5000
   \<and> stashByteStart (ex_controller 100) + stashUsed (ex_controller 100) = 5100"
  by (simp add: pause_def ioc_isWorking_def loader_isWorking_def ex_controller_def)

text \<open>
  Claim C6, amended. Whenever \<open>pause()\<close> is called while the controller is working (its
  current range being set), it aborts the loader, clears the stash (\<open>stashUsed\<close> and
  \<open>stashByteStart\<close> become 0), sets the paused flag, and records the next byte to resume
  from: \<open>stashByteStart\<close> when the stash is non-empty, in which case \<open>currentRange.to\<close>
  becomes \<open>stashByteStart - 1\<close>, and \<open>currentRange.to + 1\<close> when the stash is empty, the
  range being kept. Called while not working, it changes nothing.
\<close>

theorem pause_amended:
  "(ioc_isWorking c \<and> currentRange c = Some r \<longrightarrow>
      (\<exists>c'. pause abort c = Inr c'
         \<and> loader c' = map_option abort (loader c)
         \<and> stashUsed c' = 0 \<and> stashByteStart c' = 0 \<and> paused c'
         \<and> (stashUsed c \<noteq> 0 \<longrightarrow>
               resumeFrom c' = stashByteStart c
               \<and> currentRange c' = Some (r\<lparr>range_to := stashByteStart c - 1\<rparr>))
         \<and> (stashUsed c = 0 \<longrightarrow>
               resumeFrom c' = range_to r + 1 \<and> currentRange c' = Some r)))
   \<and> (\<not> ioc_isWorking c \<longrightarrow> pause abort c = Inr c)"
  by (simp add: pause_def Let_def)

theorem pause_amended_witness:
  "ioc_isWorking (ex_controller 100)
   \<and> currentRange (ex_controller 100) = Some \<lparr>range_from = 0, range_to = 5999\<rparr>
   \<and> stashUsed (ex_controller 100) \<noteq> 0
   \<and> pause ex_abort (ex_controller 100) =
        Inr \<lparr>loader = Some \<lparr>status = kComplete\<rparr>, stashUsed = 0, stashByteStart = 0,
             currentRange = Some \<lparr>range_from = 0, range_to = 4999\<rparr>, paused = True,
             resumeFrom = 5000\<rparr>
   \<and> ioc_isWorking (ex_controller 0)
   \<and> currentRange (ex_controller 0) = Some \<lparr>range_from = 0, range_to = 5999\<rparr>
   \<and> stashUsed (ex_controller 0) = 0
   \<and> pause ex_abort (ex_controller 0) =
        Inr \<lparr>loader = Some \<lparr>status = kComplete\<rparr>, stashUsed = 0, stashByteStart = 0,
             currentRange = Some \<lparr>range_from = 0, range_to = 5999\<rparr>, paused = True,
             resumeFrom = 6000\<rparr>
   \<and> \<not> ioc_isWorking ((ex_controller 0)\<lparr>paused := True\<rparr>)
   \<and> pause ex_abort ((ex_controller 0)\<lparr>paused := True\<rparr>) = Inr ((ex_controller 0)\<lparr>paused := True\<rparr>)"
  using pause_amended [of "ex_controller 100" "\<lparr>range_from = 0, range_to = 5999\<rparr>" ex_abort]
        pause_amended [of "ex_controller 0" "\<lparr>range_from = 0, range_to = 5999\<rparr>" ex_abort]
        pause_amended [of "(ex_controller 0)\<lparr>paused := True\<rparr>" "\<lparr>range_from = 0, range_to = 5999\<rparr>" ex_abort]
  by (simp add: pause_def ioc_isWorking_def loader_isWorking_def ex_controller_def ex_abort_def)

section \<open>Proofs: MP4 box generator\<close>

lemma be_digits:
  fixes n q1 q2 q3 r0 r1 r2 :: nat
  assumes "n = q1 * 256 + r0" "q1 = q2 * 256 + r1" "q2 = q3 * 256 + r2"
  shows "q3 * 2 ^ 24 + r2 * 2 ^ 16 + r1 * 2 ^ 8 + r0 = n"
  using assms by simp

lemma be_arith:
  fixes n :: nat
  assumes "n < 2 ^ 32"
  shows "(n div 2 ^ 24) mod 256 * 2 ^ 24 + (n div 2 ^ 16) mod 256 * 2 ^ 16 + (n div 2 ^ 8) mod 256 * 2 ^ 8 + n mod 256 = n"
proof -
  have a: "n = (n div 2 ^ 8) * 256 + n mod 256" by simp
  have "n div 2 ^ 16 = n div 2 ^ 8 div 256" by (simp add: div_mult2_eq)
  then have b: "n div 2 ^ 8 = (n div 2 ^ 16) * 256 + (n div 2 ^ 8) mod 256"
    by simp
  have "n div 2 ^ 24 = n div 2 ^ 16 div 256" by (simp add: div_mult2_eq)
  then have c: "n div 2 ^ 16 = (n div 2 ^ 24) * 256 + (n div 2 ^ 16) mod 256"
    by simp
  have d: "(n div 2 ^ 24) mod 256 = n div 2 ^ 24"
    using assms by (simp add: less_mult_imp_div_less)
  show ?thesis unfolding d by (rule be_digits [OF a b c])
qed

lemma unat_size_byte: "unat (size_byte sz k) = (sz mod 2 ^ 32 div 2 ^ k) mod 256"
proof -
  let ?w = "word_of_nat sz :: 32 word"
  have ff: "(0xFF :: 32 word) = mask 8" by (simp add: mask_eq_exp_minus_1)
  have "unat (size_byte sz k) = take_bit 8 (unat (drop_bit k ?w AND mask 8))"
    unfolding size_byte_def ff by (simp add: unsigned_ucast_eq)
  also have "\<dots> = take_bit 8 (drop_bit k (unat ?w))"
    by (simp add: unsigned_and_eq unat_drop_bit_eq unsigned_take_bit_eq flip: take_bit_eq_mask)
  also have "\<dots> = (sz mod 2 ^ 32 div 2 ^ k) mod 256"
    by (simp add: unat_of_nat take_bit_eq_mod drop_bit_eq_div)
  finally show ?thesis .
qed

lemma read_u32be_size:
  "read_u32be [size_byte sz 24, size_byte sz 16, size_byte sz 8, size_byte sz 0] = sz mod 2 ^ 32"
proof -
  let ?m = "sz mod 2 ^ 32"
  have "read_u32be [size_byte sz 24, size_byte sz 16, size_byte sz 8, size_byte sz 0] =
          unat (size_byte sz 24) * 2 ^ 24 + unat (size_byte sz 16) * 2 ^ 16
          + unat (size_byte sz 8) * 2 ^ 8 + unat (size_byte sz 0)"
    by (simp add: read_u32be_def)
  also have "\<dots> = (?m div 2 ^ 24) mod 256 * 2 ^ 24 + (?m div 2 ^ 16) mod 256 * 2 ^ 16
          + (?m div 2 ^ 8) mod 256 * 2 ^ 8 + ?m mod 256"
    by (simp only: unat_size_byte power_0 div_by_1)
  also have "\<dots> = ?m"
    by (rule be_arith) simp
  finally show ?thesis .
qed

lemma box_size_eq: "box_size sz datas = sz + sum_list (map length datas)"
  by (induction datas arbitrary: sz) auto

lemma box_fill_eq:
  "length result = offset + sum_list (map length datas) \<Longrightarrow>
   box_fill result datas offset = Inr (take offset result @ concat datas)"
proof (induction datas arbitrary: result offset)
  case Nil
  then show ?case by simp
next
  case (Cons d datas)
  have fit: "\<not> offset + length d > length result" using Cons.prems by simp
  let ?r = "take offset result @ d @ drop (offset + length d) result"
  have len: "length ?r = (offset + length d) + sum_list (map length datas)"
    using Cons.prems by simp
  have "box_fill result (d # datas) offset = box_fill ?r datas (offset + length d)"
    using fit by (simp add: typed_array_set_def)
  also have "\<dots> = Inr (take (offset + length d) ?r @ concat datas)"
    by (rule Cons.IH [OF len])
  also have "take (offset + length d) ?r = take offset result @ d"
    using Cons.prems by simp
  finally show ?case by simp
qed

lemma header_writes:
  "(replicate (8 + n) (0::byte))[0 := a, 1 := b, 2 := c, 3 := d] = [a, b, c, d] @ replicate (4 + n) 0"
proof -
  have "replicate (8 + n) (0::byte) = 0 # 0 # 0 # 0 # replicate (4 + n) 0"
    by (simp add: numeral_eq_Suc)
  then show ?thesis by (simp add: numeral_eq_Suc)
qed

lemma box_eq:
  assumes "length ty = 4"
  shows "box ty datas =
           Inr ([size_byte (8 + sum_list (map length datas)) 24,
                 size_byte (8 + sum_list (map length datas)) 16,
                 size_byte (8 + sum_list (map length datas)) 8,
                 size_byte (8 + sum_list (map length datas)) 0] @ ty @ concat datas)"
proof -
  let ?n = "sum_list (map length datas)"
  let ?sz = "8 + ?n"
  let ?hdr = "[size_byte ?sz 24, size_byte ?sz 16, size_byte ?sz 8, size_byte ?sz 0]"
  let ?r1 = "?hdr @ replicate (4 + ?n) 0"
  let ?r2 = "?hdr @ ty @ replicate ?n 0"
  have set_ty: "typed_array_set ?r1 ty 4 = Inr ?r2"
    using assms by (simp add: typed_array_set_def)
  have len: "length ?r2 = 8 + ?n" using assms by simp
  have "box ty datas = box_fill ?r2 datas 8"
    unfolding box_def Let_def box_size_eq header_writes set_ty by simp
  also have "\<dots> = Inr (take 8 ?r2 @ concat datas)"
    by (rule box_fill_eq [OF len])
  also have "take 8 ?r2 = ?hdr @ ty" using assms by simp
  finally show ?thesis by simp
qed

text \<open>
  Claim C3. For every 4-byte type and every list of body byte arrays, \<open>MP4.box\<close> returns
  (without throwing) a byte array of length 8 plus the sum of the body lengths, whose first
  four bytes are the big-endian unsigned 32-bit encoding of that total size, whose next four
  bytes are the type, and whose remaining bytes are the bodies concatenated in argument
  order. The size field is written through \<open>>>>\<close>, so it holds the size modulo \<open>2 ^ 32\<close>,
  which is the size itself whenever it fits 32 bits.
\<close>

theorem box_layout:
  assumes "length ty = 4"
  shows "\<exists>r. box ty bodies = Inr r
           \<and> length r = 8 + sum_list (map length bodies)
           \<and> read_u32be (take 4 r) = (8 + sum_list (map length bodies)) mod 2 ^ 32
           \<and> (8 + sum_list (map length bodies) < 2 ^ 32 \<longrightarrow>
                read_u32be (take 4 r) = 8 + sum_list (map length bodies))
           \<and> take 4 (drop 4 r) = ty
           \<and> drop 8 r = concat bodies"
proof -
  let ?sz = "8 + sum_list (map length bodies)"
  let ?hdr = "[size_byte ?sz 24, size_byte ?sz 16, size_byte ?sz 8, size_byte ?sz 0]"
  let ?r = "?hdr @ ty @ concat bodies"
  have r: "box ty bodies = Inr ?r" by (rule box_eq [OF assms])
  have l: "length ?r = ?sz" using assms by (simp add: length_concat)
  have t: "take 4 ?r = ?hdr" by simp
  have d: "read_u32be (take 4 ?r) = ?sz mod 2 ^ 32"
    unfolding t by (rule read_u32be_size)
  have ty: "take 4 (drop 4 ?r) = ty" using assms by simp
  have b: "drop 8 ?r = concat bodies" using assms by simp
  from r l d ty b show ?thesis by (intro exI [of _ ?r]) simp
qed

theorem box_layout_witness:
  "length [0x6D, 0x64, 0x61, 0x74 :: byte] = 4 \<and>
   (8 + sum_list (map length [[1, 2], [3 :: byte]]) < (2::nat) ^ 32) \<and>
   box [0x6D, 0x64, 0x61, 0x74] [[1, 2], [3]] = Inr [0, 0, 0, 11, 0x6D, 0x64, 0x61, 0x74, 1, 2, 3] \<and>
   read_u32be (take 4 [0, 0, 0, 11, 0x6D, 0x64, 0x61, 0x74, 1, 2, 3]) = 11"
proof -
  have h: "length [0x6D, 0x64, 0x61, 0x74 :: byte] = 4" by simp
  have e: "box [0x6D, 0x64, 0x61, 0x74] [[1, 2], [3]] = Inr [0, 0, 0, 11, 0x6D, 0x64, 0x61, 0x74, 1, 2, 3]"
    by code_simp
  from box_layout [OF h, of "[[1, 2], [3]]"] e show ?thesis by simp
qed

section \<open>Proofs: FLV chunk parsing\<close>



lemma parse_tags_incomplete:
  assumes "offset < length chunk" "tag_incomplete le chunk offset"
  shows "parse_tags handler le chunk byteStart offset d = Inr (offset, d\<lparr>dispatch := True\<rparr>)"
  using assms unfolding tag_incomplete_def
  by (subst parse_tags.simps) (auto simp: Let_def)

lemma parse_tags_end:
  assumes "\<not> offset < length chunk"
  shows "parse_tags handler le chunk byteStart offset d = Inr (offset, d)"
  using assms by (subst parse_tags.simps) simp

lemma parse_tags_complete:
  assumes "offset < length chunk" "\<not> tag_incomplete le chunk offset"
  shows "parse_tags handler le chunk byteStart offset d =
           (if tag_type chunk offset \<noteq> 8 \<and> tag_type chunk offset \<noteq> 9 \<and> tag_type chunk offset \<noteq> 18
            then parse_tags handler le chunk byteStart (offset + 11 + tag_dataSize le chunk offset + 4)
                   (d\<lparr>dispatch := True\<rparr>)
            else (case handler (tag_type chunk offset) chunk (offset + 11) (tag_dataSize le chunk offset)
                         (tag_timestamp chunk offset) (byteStart + offset) (d\<lparr>dispatch := True\<rparr>) of
                    Inl e \<Rightarrow> Inl e
                  | Inr d2 \<Rightarrow>
                      parse_tags handler le chunk byteStart
                        (offset + 11 + tag_dataSize le chunk offset + 4) d2))"
  using assms unfolding tag_incomplete_def
  by (subst parse_tags.simps) (auto simp: Let_def)

text \<open>A run of the loop that returns passes through every tag start.\<close>

lemma parse_tags_passes:
  assumes "tag_start le chunk start offset"
    and "parse_tags handler le chunk byteStart start d = Inr (r, d')"
  shows "\<exists>d0. parse_tags handler le chunk byteStart offset d0 = Inr (r, d')"
  using assms
proof (induction)
  case first_tag
  then show ?case by blast
next
  case (next_tag offset)
  then obtain d0 where d0: "parse_tags handler le chunk byteStart offset d0 = Inr (r, d')"
    by blast
  let ?next = "offset + 11 + tag_dataSize le chunk offset + 4"
  let ?d1 = "d0\<lparr>dispatch := True\<rparr>"
  note step = parse_tags_complete [OF next_tag.hyps(2,3), of handler byteStart d0]
  show ?case
  proof (cases "tag_type chunk offset \<noteq> 8 \<and> tag_type chunk offset \<noteq> 9 \<and> tag_type chunk offset \<noteq> 18")
    case True
    with step d0 have "parse_tags handler le chunk byteStart ?next ?d1 = Inr (r, d')" by simp
    then show ?thesis by blast
  next
    case False
    show ?thesis
    proof (cases "handler (tag_type chunk offset) chunk (offset + 11) (tag_dataSize le chunk offset)
                    (tag_timestamp chunk offset) (byteStart + offset) ?d1")
      case (Inl e)
      with step d0 False show ?thesis by simp
    next
      case (Inr d2)
      with step d0 False have "parse_tags handler le chunk byteStart ?next d2 = Inr (r, d')" by simp
      then show ?thesis by blast
    qed
  qed
qed

text \<open>The loop, started at a tag start, stops at the first incomplete tag.\<close>

lemma parse_tags_stops_at:
  assumes "tag_start le chunk start offset"
    and "offset < length chunk" "tag_incomplete le chunk offset"
    and "parse_tags handler le chunk byteStart start d = Inr (r, d')"
  shows "r = offset"
proof -
  from parse_tags_passes [OF assms(1,4)] obtain d0
    where "parse_tags handler le chunk byteStart offset d0 = Inr (r, d')" by blast
  with parse_tags_incomplete [OF assms(2,3), of handler byteStart d0] show ?thesis by simp
qed

lemma parse_tags_returns:
  assumes "handler_total handler"
  shows "\<exists>r d'. parse_tags handler le chunk byteStart offset d = Inr (r, d')"
  using assms
proof (induction handler le chunk byteStart offset d rule: parse_tags.induct)
  case (1 handler le chunk byteStart offset d)
  show ?case
  proof (cases "offset < length chunk")
    case False
    then show ?thesis by (simp add: parse_tags_end)
  next
    case lt: True
    show ?thesis
    proof (cases "tag_incomplete le chunk offset")
      case True
      with lt show ?thesis by (simp add: parse_tags_incomplete)
    next
      case False
      then have c1: "\<not> offset + 11 + 4 > length chunk"
        and c2: "\<not> offset + 11 + tag_dataSize le chunk offset + 4 > length chunk"
        by (auto simp: tag_incomplete_def)
      note step = parse_tags_complete [OF lt False, of handler byteStart d]
      show ?thesis
      proof (cases "tag_type chunk offset \<noteq> 8 \<and> tag_type chunk offset \<noteq> 9 \<and> tag_type chunk offset \<noteq> 18")
        case True
        from "1.IH"(1) [OF lt refl c1 refl refl c2 True "1.prems"] step True
        show ?thesis by simp
      next
        case nt: False
        from "1.prems" obtain d2 where d2:
          "handler (tag_type chunk offset) chunk (offset + 11) (tag_dataSize le chunk offset)
                    (tag_timestamp chunk offset) (byteStart + offset) (d\<lparr>dispatch := True\<rparr>) = Inr d2"
          unfolding handler_total_def by blast
        from "1.IH"(2) [OF lt refl c1 refl refl c2 nt d2 "1.prems"] step nt d2
        show ?thesis by simp
      qed
    qed
  qed
qed

lemma parse_entry_single_byte:
  assumes "length chunk = 1"
  shows "parse_entry d chunk byteStart =
           (if \<not> callbacks_bound d then Inl IllegalState
            else if byteStart = 0 then Inr EarlyReturn
            else if firstParse d then Inl RangeError
            else Inr (Proceed (Some 0) d))"
  using assms by (simp add: parse_entry_def Let_def)

lemma parseChunks_single_byte:
  assumes "length chunk = 1"
  shows "parseChunks handler finish d chunk byteStart =
           (if \<not> callbacks_bound d then Inl IllegalState
            else if byteStart = 0 then Inr (Some 0, d)
            else if firstParse d then Inl RangeError
            else (case finish (d\<lparr>dispatch := True\<rparr>) of
                    Inl e \<Rightarrow> Inl e
                  | Inr d' \<Rightarrow> Inr (Some 0, d')))"
proof -
  have inc: "tag_incomplete le chunk 0" for le
    using assms by (simp add: tag_incomplete_def)
  have lt: "0 < length chunk" using assms by simp
  show ?thesis
    unfolding parseChunks_def parse_entry_single_byte [OF assms]
    by (simp add: parse_tags_incomplete [OF lt inc])
qed

lemma parseChunks_stops_at:
  assumes e: "parse_entry d chunk byteStart = Inr (Proceed (Some start) d1)"
    and t: "tag_start (littleEndian d) chunk start offset"
    and o: "offset < length chunk" "tag_incomplete (littleEndian d) chunk offset"
    and r: "parseChunks handler finish d chunk byteStart = Inr (res, d')"
  shows "res = Some offset"
proof (cases "parse_tags handler (littleEndian d) chunk byteStart start d1")
  case (Inl e')
  with e r show ?thesis by (simp add: parseChunks_def)
next
  case (Inr p)
  obtain c d2 where p: "p = (c, d2)" by (cases p)
  from parse_tags_stops_at [OF t o Inr [unfolded p]] have "c = offset" .
  with e r Inr p show ?thesis
    by (auto simp: parseChunks_def split: sum.splits)
qed

lemma parseChunks_returns_at:
  assumes e: "parse_entry d chunk byteStart = Inr (Proceed (Some start) d1)"
    and t: "tag_start (littleEndian d) chunk start offset"
    and o: "offset < length chunk" "tag_incomplete (littleEndian d) chunk offset"
    and h: "handler_total handler" and f: "\<forall>x. \<exists>y. finish x = Inr y"
  shows "\<exists>d'. parseChunks handler finish d chunk byteStart = Inr (Some offset, d')"
proof -
  from parse_tags_returns [OF h, of "littleEndian d" chunk byteStart start d1]
  obtain c d2 where p: "parse_tags handler (littleEndian d) chunk byteStart start d1 = Inr (c, d2)"
    by blast
  from parse_tags_stops_at [OF t o p] have c: "c = offset" .
  from f obtain d3 where "finish d2 = Inr d3" by blast
  with e p c show ?thesis by (simp add: parseChunks_def)
qed

text \<open>
  Claim C4. Let the loop of \<open>parseChunks\<close> start at \<open>start\<close> and let \<open>offset\<close> be a tag
  start inside the chunk whose declared extent \<open>offset + 11 + dataSize + 4\<close> exceeds
  \<open>chunk.byteLength\<close>. Then every consumed count that \<open>parseChunks\<close> returns is exactly
  \<open>offset\<close> (so at most \<open>offset\<close>: none of the tag's bytes is consumed), and it does
  return that count when the tag parsers and the closing dispatch do not throw. In
  particular, on a single-byte chunk the only consumed count it can return is 0: it
  returns 0 at \<open>byteStart = 0\<close> and after the first parse; the remaining branches throw
  (unbound callbacks, or the read of PreviousTagSize0 on a first parse at a non-zero
  \<open>byteStart\<close>) and consume nothing.
\<close>

theorem parseChunks_incomplete_tag_not_consumed:
  "(parse_entry d chunk byteStart = Inr (Proceed (Some start) d1)
      \<and> tag_start (littleEndian d) chunk start offset
      \<and> offset < length chunk \<and> tag_incomplete (littleEndian d) chunk offset \<longrightarrow>
        (\<forall>res d'. parseChunks handler finish d chunk byteStart = Inr (res, d') \<longrightarrow> res = Some offset)
        \<and> (handler_total handler \<and> (\<forall>x. \<exists>y. finish x = Inr y) \<longrightarrow>
             (\<exists>d'. parseChunks handler finish d chunk byteStart = Inr (Some offset, d'))))
   \<and> (length chunk = 1 \<longrightarrow>
        (\<forall>res d'. parseChunks handler finish d chunk byteStart = Inr (res, d') \<longrightarrow> res = Some 0)
        \<and> (callbacks_bound d \<and> byteStart = 0 \<longrightarrow>
             parseChunks handler finish d chunk byteStart = Inr (Some 0, d))
        \<and> (callbacks_bound d \<and> byteStart \<noteq> 0 \<and> \<not> firstParse d \<longrightarrow>
             parseChunks handler finish d chunk byteStart =
               (case finish (d\<lparr>dispatch := True\<rparr>) of
                  Inl e \<Rightarrow> Inl e
                | Inr d' \<Rightarrow> Inr (Some 0, d')))
        \<and> (callbacks_bound d \<and> byteStart \<noteq> 0 \<and> firstParse d \<longrightarrow>
             parseChunks handler finish d chunk byteStart = Inl RangeError)
        \<and> (\<not> callbacks_bound d \<longrightarrow>
             parseChunks handler finish d chunk byteStart = Inl IllegalState))"
proof -
  have single: "res = Some 0"
    if "length chunk = 1" "parseChunks handler finish d chunk byteStart = Inr (res, d')" for res d'
    using that(2) unfolding parseChunks_single_byte [OF that(1)]
    by (auto split: if_splits sum.splits)
  show ?thesis
    using parseChunks_stops_at [of d chunk byteStart start d1 offset handler finish]
          parseChunks_returns_at [of d chunk byteStart start d1 offset handler finish]
          single
    by (auto simp: parseChunks_single_byte)
qed

theorem parseChunks_incomplete_tag_not_consumed_witness:
  "parse_entry (ex_demuxer False) ex_chunk 100 = Inr (Proceed (Some 0) (ex_demuxer False))
   \<and> tag_start True ex_chunk 0 16
   \<and> 16 < length ex_chunk \<and> tag_incomplete True ex_chunk 16
   \<and> parseChunks ex_handler ex_finish (ex_demuxer False) ex_chunk 100 =
         Inr (Some 16, (ex_demuxer False)\<lparr>dispatch := True\<rparr>)
   \<and> length [0x46 :: byte] = 1
   \<and> parseChunks ex_handler ex_finish (ex_demuxer True) [0x46] 0 = Inr (Some 0, ex_demuxer True)
   \<and> parseChunks ex_handler ex_finish (ex_demuxer False) [0x46] 9 =
         Inr (Some 0, (ex_demuxer False)\<lparr>dispatch := True\<rparr>)
   \<and> parseChunks ex_handler ex_finish (ex_demuxer True) [0x46] 9 = Inl RangeError"
proof -
  have s0: "tag_dataSize True ex_chunk 0 = 1" by code_simp
  have s16: "tag_dataSize True ex_chunk 16 = 100" by code_simp
  have len: "length ex_chunk = 32" by code_simp
  have entry: "parse_entry (ex_demuxer False) ex_chunk 100 = Inr (Proceed (Some 0) (ex_demuxer False))"
    by code_simp
  have "tag_start True ex_chunk 0 (0 + 11 + tag_dataSize True ex_chunk 0 + 4)"
    by (rule tag_start.next_tag [OF tag_start.first_tag]) (simp_all add: len s0 tag_incomplete_def)
  then have ts: "tag_start True ex_chunk 0 16" by (simp add: s0)
  have inc: "16 < length ex_chunk" "tag_incomplete True ex_chunk 16"
    by (simp_all add: len s16 tag_incomplete_def)
  have tot: "handler_total ex_handler" "\<forall>x. \<exists>y. ex_finish x = Inr y"
    by (simp_all add: handler_total_def ex_handler_def ex_finish_def)
  have le: "littleEndian (ex_demuxer False) = True" "callbacks_bound (ex_demuxer fp)"
    "firstParse (ex_demuxer fp) = fp" for fp
    by (simp_all add: ex_demuxer_def new_FLVDemuxer_def)
  have run: "parseChunks ex_handler ex_finish (ex_demuxer False) ex_chunk 100 =
         Inr (Some 16, (ex_demuxer False)\<lparr>dispatch := True\<rparr>)"
    by code_simp
  have one: "length [0x46 :: byte] = 1" by simp
  have a: "\<forall>res d'. parseChunks ex_handler ex_finish (ex_demuxer False) ex_chunk 100 = Inr (res, d')
             \<longrightarrow> res = Some 16"
    using parseChunks_incomplete_tag_not_consumed
         [of "ex_demuxer False" ex_chunk 100 0 "ex_demuxer False" 16 ex_handler ex_finish]
       entry ts inc
    unfolding le(1) by blast
  from parseChunks_incomplete_tag_not_consumed
         [of "ex_demuxer True" "[0x46]" 0 0 "ex_demuxer True" 0 ex_handler ex_finish] one le(2)
  have b: "parseChunks ex_handler ex_finish (ex_demuxer True) [0x46] 0 = Inr (Some 0, ex_demuxer True)"
    by blast
  from parseChunks_incomplete_tag_not_consumed
         [of "ex_demuxer False" "[0x46]" 9 0 "ex_demuxer False" 0 ex_handler ex_finish] one le(2,3)
  have c: "parseChunks ex_handler ex_finish (ex_demuxer False) [0x46] 9 =
             (case ex_finish ((ex_demuxer False)\<lparr>dispatch := True\<rparr>) of
                Inl e \<Rightarrow> Inl e
              | Inr d' \<Rightarrow> Inr (Some 0, d'))"
    by simp
  from parseChunks_incomplete_tag_not_consumed
         [of "ex_demuxer True" "[0x46]" 9 0 "ex_demuxer True" 0 ex_handler ex_finish] one le(2,3)
  have d: "parseChunks ex_handler ex_finish (ex_demuxer True) [0x46] 9 = Inl RangeError"
    by simp
  from c have c': "parseChunks ex_handler ex_finish (ex_demuxer False) [0x46] 9 =
         Inr (Some 0, (ex_demuxer False)\<lparr>dispatch := True\<rparr>)"
    by (simp add: ex_finish_def)
  from a run entry ts inc one b c' d show ?thesis by blast
qed

section \<open>Proofs: media information callbacks\<close>

lemma media_info_count_simps [simp]:
  "media_info_count [] = 0"
  "media_info_count (evs @ evs') = media_info_count evs + media_info_count evs'"
  "media_info_count (e # evs) = (if is_media_info e then 1 else 0) + media_info_count evs"
  by (simp_all add: media_info_count_def)





lemma silent_trans: "silent d d1 \<Longrightarrow> silent d1 d2 \<Longrightarrow> silent d d2"
  by (auto simp: silent_def)



lemma reports_upd: "reports_at_most_once d d1 \<Longrightarrow> events d2 = events d1 \<Longrightarrow> reports_at_most_once d d2"
  by (auto simp: reports_at_most_once_def)




subsection \<open>Script tags\<close>

lemma events_meta_steps [simp]:
  "events (meta_hasAudio md d) = events d"
  "events (meta_hasVideo md d) = events d"
  "events (meta_rates_size md d) = events d"
  "events (meta_duration md d) = events d"
  "events (meta_framerate md d) = events d"
  by (simp_all add: meta_hasAudio_def meta_hasVideo_def meta_rates_size_def meta_duration_def
        meta_framerate_def Let_def split: option.splits)




subsection \<open>Audio tags\<close>







subsection \<open>Video tags\<close>








subsection \<open>Sessions\<close>






section \<open>Proofs: continuity of the remuxed samples and silent frames\<close>

lemma js_round_shift: "js_round (of_int d + x) = d + js_round x"
  unfolding js_round_def by linarith

lemma close_previous_length: "length (close_previous fs t) = length fs"
  by (simp add: close_previous_def)

lemma close_previous_nil: "close_previous fs t = [] \<longleftrightarrow> fs = []"
  by (simp add: close_previous_def)

lemma chained_nth:
  "chained d u xs \<longleftrightarrow> (\<forall>i. Suc i < length xs \<longrightarrow> d (xs ! i) + u (xs ! i) = d (xs ! Suc i))"
proof (induction d u xs rule: chained.induct)
  case (1 d u x y zs)
  show ?case
  proof
    assume a: "chained d u (x # y # zs)"
    show "\<forall>i. Suc i < length (x # y # zs) \<longrightarrow>
        d ((x # y # zs) ! i) + u ((x # y # zs) ! i) = d ((x # y # zs) ! Suc i)"
    proof (intro allI impI)
      fix i assume i: "Suc i < length (x # y # zs)"
      show "d ((x # y # zs) ! i) + u ((x # y # zs) ! i) = d ((x # y # zs) ! Suc i)"
      proof (cases i)
        case 0 then show ?thesis using a by simp
      next
        case (Suc j)
        then have "Suc j < length (y # zs)" using i by simp
        moreover have "chained d u (y # zs)" using a by simp
        ultimately have "d ((y # zs) ! j) + u ((y # zs) ! j) = d ((y # zs) ! Suc j)"
          using 1 by blast
        then show ?thesis using Suc by simp
      qed
    qed
  next
    assume a: "\<forall>i. Suc i < length (x # y # zs) \<longrightarrow>
        d ((x # y # zs) ! i) + u ((x # y # zs) ! i) = d ((x # y # zs) ! Suc i)"
    have "d x + u x = d y" using a [rule_format, of 0] by simp
    moreover have "\<forall>i. Suc i < length (y # zs) \<longrightarrow>
        d ((y # zs) ! i) + u ((y # zs) ! i) = d ((y # zs) ! Suc i)"
    proof (intro allI impI)
      fix i assume "Suc i < length (y # zs)"
      then show "d ((y # zs) ! i) + u ((y # zs) ! i) = d ((y # zs) ! Suc i)"
        using a [rule_format, of "Suc i"] by simp
    qed
    ultimately show "chained d u (x # y # zs)" using 1 by simp
  qed
qed simp_all

lemma chained_append:
  "chained d u (xs @ ys) \<longleftrightarrow>
     chained d u xs \<and> chained d u ys \<and>
     (xs \<noteq> [] \<and> ys \<noteq> [] \<longrightarrow> d (last xs) + u (last xs) = d (hd ys))"
proof (induction xs rule: induct_list012)
  case 1
  then show ?case by simp
next
  case (2 x)
  then show ?case by (cases ys) auto
next
  case (3 x y zs)
  then show ?case by simp
qed

lemma chained_map:
  assumes "\<And>x. d (f x) = d x" "\<And>x. u (f x) = u x"
  shows "chained d u (map f xs) = chained d u xs"
  by (simp add: chained_nth assms)

lemma chained_update_last:
  "chained d u (xs[length xs - 1 := y]) = chained d u xs" if "d y = d (last xs)"
proof (cases "xs = []")
  case True
  then show ?thesis by simp
next
  case False
  then have l: "last xs = xs ! (length xs - 1)" by (simp add: last_conv_nth)
  have "d (xs[length xs - 1 := y] ! i) = d (xs ! i)" if "i < length xs" for i
    using that l \<open>d y = d (last xs)\<close> by (cases "i = length xs - 1") simp_all
  moreover have "u (xs[length xs - 1 := y] ! i) = u (xs ! i)" if "Suc i < length xs" for i
    using that by simp
  ultimately show ?thesis by (simp add: chained_nth)
qed

lemma close_previous_chained:
  "chained ma_dts ma_duration (close_previous fs t) = chained ma_dts ma_duration fs"
proof (cases "fs = []")
  case True
  then show ?thesis by (simp add: close_previous_def)
next
  case False
  have "chained ma_dts ma_duration
          (fs[length fs - 1 := (last fs)\<lparr>ma_duration := t - ma_dts (last fs)\<rparr>])
        = chained ma_dts ma_duration fs"
    by (rule chained_update_last) simp
  then show ?thesis using False by (simp add: close_previous_def)
qed

lemma close_previous_last:
  assumes "fs \<noteq> []"
  shows "ma_dts (last (close_previous fs t)) = ma_dts (last fs)"
    and "ma_dts (last (close_previous fs t)) + ma_duration (last (close_previous fs t)) = t"
proof -
  have "last (close_previous fs t) = (last fs)\<lparr>ma_duration := t - ma_dts (last fs)\<rparr>"
    using assms by (simp add: close_previous_def last_conv_nth)
  then show "ma_dts (last (close_previous fs t)) = ma_dts (last fs)"
    and "ma_dts (last (close_previous fs t)) + ma_duration (last (close_previous fs t)) = t"
    by simp_all
qed

lemma close_previous_hd:
  "ma_dts (hd (close_previous fs t)) = ma_dts (hd fs)"
proof (cases fs)
  case Nil
  then show ?thesis by (simp add: close_previous_def)
next
  case (Cons a as)
  then show ?thesis by (cases as) (simp_all add: close_previous_def hd_conv_nth nth_list_update last_conv_nth)
qed

lemma chained_Cons:
  "chained d u (x # ys) = ((ys \<noteq> [] \<longrightarrow> d x + u x = d (hd ys)) \<and> chained d u ys)"
  by (cases ys) simp_all

lemma linked_append:
  "linked P (xs @ ys) \<longleftrightarrow>
     linked P xs \<and> linked P ys \<and> (xs \<noteq> [] \<and> ys \<noteq> [] \<longrightarrow> P (last xs) (hd ys))"
proof (induction xs rule: induct_list012)
  case 1
  then show ?case by simp
next
  case (2 x)
  then show ?case by (cases ys) auto
next
  case (3 x y zs)
  then show ?case by simp
qed

lemma chained_linked: "chained d u xs = linked (\<lambda>x y. d x + u x = d y) xs"
  by (induction xs rule: induct_list012) simp_all

lemma linked_mono:
  assumes "linked P xs" "\<And>x y. P x y \<Longrightarrow> Q x y"
  shows "linked Q xs"
  using assms(1) by (induction xs rule: induct_list012) (simp_all add: assms(2))

lemma linked_Cons:
  "linked P (x # ys) = ((ys \<noteq> [] \<longrightarrow> P x (hd ys)) \<and> linked P ys)"
  by (cases ys) simp_all

text \<open>The closed form of the silent frames.\<close>

lemma silent_frames_at_simps:
  "silent_frames_at u odts [] e = []"
  "silent_frames_at u odts [t] e = [(silent_frame u odts t)\<lparr>ma_duration := e - t\<rparr>]"
  "silent_frames_at u odts (t # t' # ts) e =
     (silent_frame u odts t)\<lparr>ma_duration := t' - t\<rparr> # silent_frames_at u odts (t' # ts) e"
  by (simp_all add: silent_frames_at_def)

lemma silent_frames_at_length: "length (silent_frames_at u odts ts e) = length ts"
  by (simp add: silent_frames_at_def)

lemma silent_frames_at_nil: "silent_frames_at u odts ts e = [] \<longleftrightarrow> ts = []"
  using silent_frames_at_length [of u odts ts e] by (metis length_0_conv)

lemma silent_frames_at_hd:
  "ts \<noteq> [] \<Longrightarrow> ma_dts (hd (silent_frames_at u odts ts e)) = hd ts"
  "ts \<noteq> [] \<Longrightarrow> ma_originalDts (hd (silent_frames_at u odts ts e)) = odts"
  by (induction ts rule: induct_list012) (simp_all add: silent_frames_at_simps silent_frame_def)

lemma silent_frames_at_last:
  "ts \<noteq> [] \<Longrightarrow>
   ma_dts (last (silent_frames_at u odts ts e)) + ma_duration (last (silent_frames_at u odts ts e)) = e"
  by (induction ts rule: induct_list012)
     (simp_all add: silent_frames_at_simps silent_frame_def silent_frames_at_nil)

lemma silent_frames_at_chained:
  "chained ma_dts ma_duration (silent_frames_at u odts ts e)"
proof (induction ts rule: induct_list012)
  case 1
  then show ?case by (simp add: silent_frames_at_simps)
next
  case (2 t)
  then show ?case by (simp add: silent_frames_at_simps)
next
  case (3 t t' ts)
  have "ma_dts (hd (silent_frames_at u odts (t' # ts) e)) = t'"
    using silent_frames_at_hd(1) [of "t' # ts" u odts e] by simp
  then show ?case
    using 3 by (simp add: silent_frames_at_simps chained_Cons silent_frame_def silent_frames_at_nil)
qed


lemma silent_frames_at_dts:
  "map ma_dts (silent_frames_at u odts ts e) = ts"
proof (induction ts rule: induct_list012)
  case 1
  then show ?case by (simp add: silent_frames_at_simps)
next
  case (2 t)
  then show ?case by (simp add: silent_frames_at_simps silent_frame_def)
next
  case (3 t t' ts)
  then show ?case by (simp add: silent_frames_at_simps silent_frame_def)
qed

lemma close_previous_snoc:
  "close_previous (fs @ [x]) t = fs @ [x\<lparr>ma_duration := t - ma_dts x\<rparr>]"
  by (simp add: close_previous_def)

lemma close_previous_frames_at:
  "close_previous (silent_frames_at u odts ts e) e' = silent_frames_at u odts ts e'"
proof (induction ts rule: induct_list012)
  case 1
  then show ?case by (simp add: silent_frames_at_simps close_previous_def)
next
  case (2 t)
  then show ?case by (simp add: silent_frames_at_simps close_previous_def silent_frame_def)
next
  case (3 t t' ts)
  let ?x = "(silent_frame u odts t)\<lparr>ma_duration := t' - t\<rparr>"
  let ?r = "silent_frames_at u odts (t' # ts) e"
  have ne: "?r \<noteq> []" by (simp add: silent_frames_at_nil)
  have "close_previous (?x # ?r) e' = ?x # close_previous ?r e'"
    using ne by (cases ?r) (simp_all add: close_previous_def last_conv_nth)
  then show ?case using 3 by (simp add: silent_frames_at_simps)
qed

lemma silent_frame_times_length:
  "silent_frame_times fl n c ref = Some ts \<Longrightarrow> length ts = n"
proof (induction n arbitrary: c ts)
  case 0
  then show ?case by simp
next
  case (Suc n)
  then show ?case by (cases c) (auto split: option.splits)
qed

lemma silent_frame_times_hd:
  "silent_frame_times fl (Suc n) c ref = Some ts \<Longrightarrow> \<exists>v. c = Some v \<and> hd ts = js_round v \<and> ts \<noteq> []"
  by (cases c) (auto split: option.splits)

lemma silent_frame_loop_closed:
  "silent_frame_times fl n c ref = Some ts \<Longrightarrow>
   silent_frame_loop fl n c ref u odts fs =
     Inr (case ts of [] \<Rightarrow> fs | t # _ \<Rightarrow> close_previous fs t @ silent_frames_at u odts ts (last ts))"
proof (induction n arbitrary: c ts fs)
  case 0
  then show ?case by simp
next
  case (Suc n)
  from Suc.prems obtain v ts' where c: "c = Some v" and ts: "ts = js_round v # ts'"
    and t': "silent_frame_times fl n (fl (v + ref)) ref = Some ts'"
    by (cases c) (auto split: option.splits)
  let ?t = "js_round v"
  let ?fs = "close_previous fs ?t @ [silent_frame u odts ?t]"
  have step: "silent_frame_loop fl (Suc n) c ref u odts fs
      = silent_frame_loop fl n (fl (v + ref)) ref u odts ?fs"
    by (simp add: c Let_def)
  have ih: "silent_frame_loop fl n (fl (v + ref)) ref u odts ?fs
      = Inr (case ts' of [] \<Rightarrow> ?fs | t # _ \<Rightarrow> close_previous ?fs t @ silent_frames_at u odts ts' (last ts'))"
    by (rule Suc.IH [OF t'])
  show ?case
  proof (cases ts')
    case Nil
    then show ?thesis
      using step ih ts by (simp add: silent_frames_at_simps silent_frame_def)
  next
    case (Cons t1 ts'')
    have "close_previous ?fs t1 = close_previous fs ?t @ [(silent_frame u odts ?t)\<lparr>ma_duration := t1 - ?t\<rparr>]"
      by (simp add: close_previous_snoc silent_frame_def)
    then show ?thesis
      using step ih ts Cons by (simp add: silent_frames_at_simps)
  qed
qed

lemma silent_frame_loop_not_finite:
  "silent_frame_times fl n c ref = None \<Longrightarrow> silent_frame_loop fl n c ref u odts fs = Inl NonFinite"
proof (induction n arbitrary: c fs)
  case 0
  then show ?case by simp
next
  case (Suc n)
  then show ?case by (cases c) (auto simp add: Let_def split: option.splits)
qed

text \<open>
  \<open>fill_silent_frames\<close> returns frames exactly when the loop has a positive number of
  rounds and all its times are finite; the frames are then those of the closed form.
\<close>

lemma fill_silent_frames_closed:
  "fill_silent_frames fl ref u odts dts sd = Inr frames \<longleftrightarrow>
     (\<exists>n ts. frame_rounds fl ref sd = Some n \<and> 0 < n \<and>
        silent_frame_times fl n (fl (of_int dts + ref)) ref = Some ts \<and>
        frames = silent_frames_at u odts ts (dts + sd))"
proof (cases "frame_rounds fl ref sd")
  case None
  then show ?thesis by (simp add: fill_silent_frames_def)
next
  case (Some n)
  show ?thesis
  proof (cases "silent_frame_times fl n (fl (of_int dts + ref)) ref")
    case None
    then show ?thesis
      using Some by (simp add: fill_silent_frames_def silent_frame_loop_not_finite)
  next
    case ts: (Some ts)
    have len: "length ts = n" using ts by (rule silent_frame_times_length)
    show ?thesis
    proof (cases ts)
      case Nil
      then have "n = 0" using len by simp
      then show ?thesis using Some by (simp add: fill_silent_frames_def)
    next
      case (Cons t ts')
      then have n: "0 < n" using len by auto
      have "silent_frame_loop fl n (fl (of_int dts + ref)) ref u odts []
          = Inr (silent_frames_at u odts ts (last ts))"
        using silent_frame_loop_closed [OF ts, of u odts "[]"] Cons
        by (simp add: close_previous_def)
      then have "fill_silent_frames fl ref u odts dts sd = Inr (silent_frames_at u odts ts (dts + sd))"
        using Some Cons
        by (simp add: fill_silent_frames_def silent_frames_at_nil close_previous_frames_at)
      then show ?thesis using Some ts n by auto
    qed
  qed
qed

lemma video_step_result:
  assumes "video_step base corr ref popped s rest st = Inr st'"
  shows "\<exists>sd x. sample_duration base corr ref (next_video_dts rest popped)
                  (prev_video_duration (vl_mp4Samples st)) (v_dts s - base - corr) = Inr sd \<and>
           vl_mp4Samples st' = vl_mp4Samples st @ [x] \<and>
           mv_dts x = v_dts s - base - corr \<and> mv_duration x = sd"
proof (cases "sample_duration base corr ref (next_video_dts rest popped)
                  (prev_video_duration (vl_mp4Samples st)) (v_dts s - base - corr)")
  case (Inl e)
  then show ?thesis using assms
    by (cases "vl_firstDts st = - 1") (simp_all add: video_step_def Let_def)
next
  case (Inr sd)
  then show ?thesis using assms
    by (cases "vl_firstDts st = - 1"; cases "v_isKeyframe s") (auto simp add: video_step_def Let_def)
qed

lemma sample_duration_next:
  "sample_duration base corr ref (Some n) prev dts = Inr sd \<Longrightarrow> dts + sd = n - base - corr"
  by (auto simp add: sample_duration_def)

lemma video_step_chain:
  assumes "video_step base corr ref popped s rest st = Inr st'"
      and "chained mv_dts mv_duration (vl_mp4Samples st)"
      and "vl_mp4Samples st \<noteq> [] \<longrightarrow>
             mv_dts (last (vl_mp4Samples st)) + mv_duration (last (vl_mp4Samples st))
               = v_dts s - base - corr"
  shows "chained mv_dts mv_duration (vl_mp4Samples st')"
    and "vl_mp4Samples st' \<noteq> []"
    and "rest \<noteq> [] \<longrightarrow>
           mv_dts (last (vl_mp4Samples st')) + mv_duration (last (vl_mp4Samples st'))
             = v_dts (hd rest) - base - corr"
proof -
  obtain sd x where
    d: "sample_duration base corr ref (next_video_dts rest popped)
          (prev_video_duration (vl_mp4Samples st)) (v_dts s - base - corr) = Inr sd"
    and x: "vl_mp4Samples st' = vl_mp4Samples st @ [x]" "mv_dts x = v_dts s - base - corr"
      "mv_duration x = sd"
    using video_step_result [OF assms(1)] by blast
  show "chained mv_dts mv_duration (vl_mp4Samples st')"
    using assms(2,3) x by (simp add: chained_append)
  show "vl_mp4Samples st' \<noteq> []" using x by simp
  show "rest \<noteq> [] \<longrightarrow>
           mv_dts (last (vl_mp4Samples st')) + mv_duration (last (vl_mp4Samples st'))
             = v_dts (hd rest) - base - corr"
  proof
    assume "rest \<noteq> []"
    then have "next_video_dts rest popped = Some (v_dts (hd rest))"
      by (cases rest) (simp_all add: next_video_dts_def)
    then have "(v_dts s - base - corr) + sd = v_dts (hd rest) - base - corr"
      using d sample_duration_next by metis
    then show "mv_dts (last (vl_mp4Samples st')) + mv_duration (last (vl_mp4Samples st'))
             = v_dts (hd rest) - base - corr"
      using x by simp
  qed
qed

lemma video_loop_chain:
  assumes "video_loop base corr ref popped smp st = Inr st'"
      and "chained mv_dts mv_duration (vl_mp4Samples st)"
      and "vl_mp4Samples st \<noteq> [] \<longrightarrow> smp \<noteq> [] \<longrightarrow>
             mv_dts (last (vl_mp4Samples st)) + mv_duration (last (vl_mp4Samples st))
               = v_dts (hd smp) - base - corr"
  shows "chained mv_dts mv_duration (vl_mp4Samples st')"
  using assms
proof (induction smp arbitrary: st)
  case Nil
  then show ?case by simp
next
  case (Cons s rest)
  from Cons.prems(1) obtain st1 where
    s1: "video_step base corr ref popped s rest st = Inr st1"
    and l1: "video_loop base corr ref popped rest st1 = Inr st'"
    by (cases "video_step base corr ref popped s rest st") simp_all
  have p: "vl_mp4Samples st \<noteq> [] \<longrightarrow>
             mv_dts (last (vl_mp4Samples st)) + mv_duration (last (vl_mp4Samples st))
               = v_dts s - base - corr"
    using Cons.prems(3) by simp
  show ?case
    using Cons.IH [OF l1 video_step_chain(1) [OF s1 Cons.prems(2) p]]
      video_step_chain(3) [OF s1 Cons.prems(2) p]
    by blast
qed

lemma force_first_idr_chained:
  "chained mv_dts mv_duration (force_first_idr xs) = chained mv_dts mv_duration xs"
proof (cases xs)
  case Nil
  then show ?thesis by (simp add: force_first_idr_def)
next
  case (Cons a as)
  then show ?thesis by (cases as) (simp_all add: force_first_idr_def)
qed

lemma video_finish_result:
  assumes "video_finish r track mdatBytes st = Inr (r', track')"
  shows "\<exists>seg. segments r' = segments r @ [VideoSegment seg] \<and>
           chained mv_dts mv_duration (seg_samples seg)
             = chained mv_dts mv_duration (vl_mp4Samples st) \<and>
           seg_moof seg = Some (sequenceNumber track + 1, vl_firstDts st) \<and>
           sequenceNumber track' = sequenceNumber track + 1"
proof -
  have m: "chained mv_dts mv_duration (map (\<lambda>s. s\<lparr>mv_units := []\<rparr>) xs)
         = chained mv_dts mv_duration xs" for xs
    by (rule chained_map) simp_all
  show ?thesis
    using assms
    by (auto simp add: video_finish_def Let_def force_first_idr_chained m
        split: sum.splits if_splits)
qed

lemma remuxVideo_result:
  assumes "remuxVideo r track force = Inr (r', track')"
  shows "(r' = r \<and> track' = track) \<or>
         (\<exists>seg. segments r' = segments r @ [VideoSegment seg] \<and>
            chained mv_dts mv_duration (seg_samples seg) \<and>
            fst (the (seg_moof seg)) = sequenceNumber track + 1 \<and>
            sequenceNumber track' = sequenceNumber track + 1)"
proof (cases "videoMeta r")
  case None
  then show ?thesis using assms by (simp add: remuxVideo_def)
next
  case (Some meta)
  show ?thesis
  proof (cases "length (samples track) = 0 \<or> (length (samples track) = 1 \<and> \<not> force)")
    case True
    then have "remuxVideo r track force = Inr (r, track)"
      using Some by (auto simp add: remuxVideo_def)
    then show ?thesis using assms by simp
  next
    case False
    obtain smp popped payloadBytes where
      b: "take_batch v_length (samples track) (tr_length track) (videoStashedLastSample r)
            = (smp, popped, payloadBytes)"
      by (cases "take_batch v_length (samples track) (tr_length track) (videoStashedLastSample r)") auto
    define r0 where "r0 = r\<lparr>videoStashedLastSample := popped\<rparr>"
    from assms Some False b obtain base where base: "dtsBase r = Some base"
      by (cases "dtsBase r") (auto simp add: remuxVideo_def Let_def)
    from assms Some False b base obtain corr where
      corr: "dtsCorrection_of (videoNextDts r) (videoSegmentInfoList r) (v_dts (hd smp) - base) = Inr corr"
      by (cases "dtsCorrection_of (videoNextDts r) (videoSegmentInfoList r) (v_dts (hd smp) - base)")
        (auto simp add: remuxVideo_def Let_def)
    from assms Some False b base corr obtain st where
      st: "video_loop base corr (vm_refSampleDuration meta) popped smp
             \<lparr>vl_mp4Samples = [], vl_info = new_MediaSegmentInfo, vl_firstDts = - 1,
              vl_firstPts = - 1\<rparr> = Inr st"
      by (cases "video_loop base corr (vm_refSampleDuration meta) popped smp
             \<lparr>vl_mp4Samples = [], vl_info = new_MediaSegmentInfo, vl_firstDts = - 1,
              vl_firstPts = - 1\<rparr>")
        (auto simp add: remuxVideo_def Let_def)
    have f: "video_finish r0 track (8 + payloadBytes) st = Inr (r', track')"
      using assms Some False b base corr st by (auto simp add: remuxVideo_def Let_def r0_def)
    have c: "chained mv_dts mv_duration (vl_mp4Samples st)"
      by (rule video_loop_chain [OF st]) simp_all
    show ?thesis
      using video_finish_result [OF f] c by (auto simp add: r0_def)
  qed
qed

text \<open>What one round of the audio loop appends.\<close>

lemma rounded_link_exact:
  "rounded_link exact ref x y \<Longrightarrow> ma_dts x + ma_duration x = ma_dts y"
  by (cases ref) (simp_all add: rounded_link_def exact_def js_round_shift)

lemma audio_link_exact:
  "audio_link exact ref x y \<longleftrightarrow> ma_dts x + ma_duration x = ma_dts y"
  using rounded_link_exact by (auto simp add: audio_link_def)

lemma linked_exact:
  "linked (audio_link exact ref) xs = chained ma_dts ma_duration xs"
proof -
  have "audio_link exact ref = (\<lambda>x y. ma_dts x + ma_duration x = ma_dts y)"
    by (intro ext) (rule audio_link_exact)
  then show ?thesis by (simp add: chained_linked)
qed

lemma chained_audio_link:
  "chained ma_dts ma_duration xs \<Longrightarrow> linked (audio_link fl ref) xs"
proof -
  assume "chained ma_dts ma_duration xs"
  then have "linked (\<lambda>x y. ma_dts x + ma_duration x = ma_dts y) xs" by (simp add: chained_linked)
  then show ?thesis by (rule linked_mono) (simp add: audio_link_def)
qed

lemma audio_step_result:
  assumes "audio_step fl g r meta base corr popped s rest st = Inr st'"
  shows "\<exists>sd xs. sample_duration base corr (am_refSampleDuration meta) (next_audio_dts rest popped)
                  (prev_audio_duration (al_mp4Samples st)) (a_dts s - base - corr) = Inr sd \<and>
           al_mp4Samples st' = al_mp4Samples st @ xs \<and> xs \<noteq> [] \<and>
           linked (audio_link fl (am_refSampleDuration meta)) xs \<and>
           ma_dts (hd xs) = a_dts s - base - corr \<and>
           ma_dts (last xs) + ma_duration (last xs) = a_dts s - base - corr + sd"
proof -
  let ?dts = "a_dts s - base - corr"
  obtain sd where sd: "sample_duration base corr (am_refSampleDuration meta)
      (next_audio_dts rest popped) (prev_audio_duration (al_mp4Samples st)) ?dts = Inr sd"
    using assms
    by (cases "sample_duration base corr (am_refSampleDuration meta)
      (next_audio_dts rest popped) (prev_audio_duration (al_mp4Samples st)) ?dts";
        cases "al_firstDts st = - 1") (simp_all add: audio_step_def Let_def)
  show ?thesis
  proof (cases "needFillSilentFrames fl r meta sd")
    case False
    then have "al_mp4Samples st' = al_mp4Samples st @ [audio_sample s ?dts sd (a_dts s - base)]"
      using assms sd by (cases "al_firstDts st = - 1") (auto simp add: audio_step_def Let_def)
    then show ?thesis using sd by (simp add: audio_sample_def)
  next
    case True
    then obtain ref where ref: "am_refSampleDuration meta = Some ref"
      by (cases "am_refSampleDuration meta") (simp_all add: needFillSilentFrames_def)
    let ?unit = "silent_unit g meta s"
    let ?x = "audio_sample s ?dts (js_round ref) (a_dts s - base)"
    obtain fs where fs: "fill_silent_frames fl ref ?unit (a_dts s - base) ?dts sd = Inr fs"
      using assms sd True ref
      by (cases "fill_silent_frames fl ref ?unit (a_dts s - base) ?dts sd"; cases "al_firstDts st = - 1")
        (simp_all add: audio_step_def Let_def)
    then obtain n ts where n: "0 < n"
      and ts: "silent_frame_times fl n (fl (of_int ?dts + ref)) ref = Some ts"
      and f: "fs = silent_frames_at ?unit (a_dts s - base) ts (?dts + sd)"
      unfolding fill_silent_frames_closed by blast
    obtain m where m: "n = Suc m" using n by (cases n) simp_all
    obtain v where v: "fl (of_int ?dts + ref) = Some v" "hd ts = js_round v" "ts \<noteq> []"
      using silent_frame_times_hd [OF ts [unfolded m]] by blast
    have ne: "fs \<noteq> []" using f v(3) by (simp add: silent_frames_at_nil)
    have h: "ma_dts (hd fs) = js_round v" "ma_originalDts (hd fs) = a_dts s - base"
      using f v silent_frames_at_hd [of ts ?unit "a_dts s - base" "?dts + sd"] by simp_all
    have l: "ma_dts (last fs) + ma_duration (last fs) = ?dts + sd"
      using f v(3) by (simp add: silent_frames_at_last)
    have c: "linked (audio_link fl (Some ref)) fs"
      using f by (simp add: chained_audio_link silent_frames_at_chained)
    have "rounded_link fl (Some ref) ?x (hd fs)"
      using v(1) h by (simp add: rounded_link_def audio_sample_def)
    then have k: "linked (audio_link fl (Some ref)) (?x # fs)"
      using c ne by (simp add: linked_Cons audio_link_def)
    have x: "al_mp4Samples st' = al_mp4Samples st @ ?x # fs"
      using assms sd True ref fs by (cases "al_firstDts st = - 1") (auto simp add: audio_step_def Let_def)
    show ?thesis using sd x k l ne ref by (simp add: audio_sample_def)
  qed
qed

lemma audio_step_linked:
  assumes "audio_step fl g r meta base corr popped s rest st = Inr st'"
      and "linked (audio_link fl (am_refSampleDuration meta)) (al_mp4Samples st)"
      and "al_mp4Samples st \<noteq> [] \<longrightarrow>
             ma_dts (last (al_mp4Samples st)) + ma_duration (last (al_mp4Samples st))
               = a_dts s - base - corr"
  shows "linked (audio_link fl (am_refSampleDuration meta)) (al_mp4Samples st')"
    and "al_mp4Samples st' \<noteq> []"
    and "rest \<noteq> [] \<longrightarrow>
           ma_dts (last (al_mp4Samples st')) + ma_duration (last (al_mp4Samples st'))
             = a_dts (hd rest) - base - corr"
proof -
  obtain sd xs where
    d: "sample_duration base corr (am_refSampleDuration meta) (next_audio_dts rest popped)
          (prev_audio_duration (al_mp4Samples st)) (a_dts s - base - corr) = Inr sd"
    and x: "al_mp4Samples st' = al_mp4Samples st @ xs" "xs \<noteq> []"
      "linked (audio_link fl (am_refSampleDuration meta)) xs" "ma_dts (hd xs) = a_dts s - base - corr"
      "ma_dts (last xs) + ma_duration (last xs) = a_dts s - base - corr + sd"
    using audio_step_result [OF assms(1)] by blast
  show "linked (audio_link fl (am_refSampleDuration meta)) (al_mp4Samples st')"
    using assms(2,3) x by (simp add: linked_append audio_link_def)
  show "al_mp4Samples st' \<noteq> []" using x by simp
  show "rest \<noteq> [] \<longrightarrow>
           ma_dts (last (al_mp4Samples st')) + ma_duration (last (al_mp4Samples st'))
             = a_dts (hd rest) - base - corr"
  proof
    assume "rest \<noteq> []"
    then have "next_audio_dts rest popped = Some (a_dts (hd rest))"
      by (cases rest) (simp_all add: next_audio_dts_def)
    then have "(a_dts s - base - corr) + sd = a_dts (hd rest) - base - corr"
      using d sample_duration_next by metis
    then show "ma_dts (last (al_mp4Samples st')) + ma_duration (last (al_mp4Samples st'))
             = a_dts (hd rest) - base - corr"
      using x by simp
  qed
qed

lemma audio_loop_linked:
  assumes "audio_loop fl g r meta base corr popped smp st = Inr st'"
      and "linked (audio_link fl (am_refSampleDuration meta)) (al_mp4Samples st)"
      and "al_mp4Samples st \<noteq> [] \<longrightarrow> smp \<noteq> [] \<longrightarrow>
             ma_dts (last (al_mp4Samples st)) + ma_duration (last (al_mp4Samples st))
               = a_dts (hd smp) - base - corr"
  shows "linked (audio_link fl (am_refSampleDuration meta)) (al_mp4Samples st')"
  using assms
proof (induction smp arbitrary: st)
  case Nil
  then show ?case by simp
next
  case (Cons s rest)
  from Cons.prems(1) obtain st1 where
    s1: "audio_step fl g r meta base corr popped s rest st = Inr st1"
    and l1: "audio_loop fl g r meta base corr popped rest st1 = Inr st'"
    by (cases "audio_step fl g r meta base corr popped s rest st") simp_all
  have p: "al_mp4Samples st \<noteq> [] \<longrightarrow>
             ma_dts (last (al_mp4Samples st)) + ma_duration (last (al_mp4Samples st))
               = a_dts s - base - corr"
    using Cons.prems(3) by simp
  show ?case
    using Cons.IH [OF l1 audio_step_linked(1) [OF s1 Cons.prems(2) p]]
      audio_step_linked(3) [OF s1 Cons.prems(2) p]
    by blast
qed

lemma audio_finish_result:
  assumes "audio_finish r track raw fsas st = Inr (r', track')"
  shows "\<exists>seg. segments r' = segments r @ [AudioSegment seg] \<and>
           seg_samples seg = al_mp4Samples st \<and>
           seg_moof seg = (if raw then None else Some (sequenceNumber track + 1, al_firstDts st)) \<and>
           sequenceNumber track' = sequenceNumber track + 1"
  using assms
  by (auto simp add: audio_finish_def Let_def split: sum.splits if_splits)

text \<open>
  \<open>_remuxAudio\<close> as a chain of its stages, once the batch is taken.
\<close>

lemma remuxAudio_stages:
  assumes "audioMeta r = Some meta"
      and "\<not> (length (samples track) = 0 \<or> (length (samples track) = 1 \<and> \<not> force))"
      and "take_batch a_length (samples track) (tr_length track) (audioStashedLastSample r)
            = (smp, popped, payloadBytes)"
      and "r0 = r\<lparr>audioStashedLastSample := popped\<rparr>"
      and "raw = (am_codec meta = Some ''mp3'' \<and> mp3UseMpegAudio r)"
      and "fsas = (dtsBaseInited r \<and> audioNextDts r = None)"
      and "bytes = (if raw then payloadBytes else 8 + payloadBytes)"
  shows "remuxAudio fl g r track force =
      (case dtsBase r0 of
         None \<Rightarrow> Inl NonFinite
       | Some base \<Rightarrow>
           (case dtsCorrection_of (audioNextDts r0) (audioSegmentInfoList r0) (a_dts (hd smp) - base) of
              Inl e \<Rightarrow> Inl e
            | Inr corr \<Rightarrow>
                (case prefix_silent_frame g r0 meta (a_dts (hd smp) - base) corr of
                   Inl e \<Rightarrow> Inl e
                 | Inr prefix \<Rightarrow>
                     (case audio_loop fl g r0 meta base corr popped
                             (case prefix of None \<Rightarrow> smp | Some s \<Rightarrow> s # smp)
                             \<lparr>al_mp4Samples = [], al_firstDts = - 1,
                              al_mdatBytes = (case prefix of None \<Rightarrow> bytes
                                              | Some s \<Rightarrow> bytes + int (length (a_unit s)))\<rparr> of
                        Inl e \<Rightarrow> Inl e
                      | Inr st \<Rightarrow> audio_finish r0 track raw fsas st))))"
  using assms
  by (auto simp add: remuxAudio_def Let_def split: option.splits sum.splits)

lemma remuxAudio_result:
  assumes "remuxAudio fl g r track force = Inr (r', track')"
  shows "(r' = r \<and> track' = track) \<or>
         (\<exists>seg. segments r' = segments r @ [AudioSegment seg] \<and>
            linked (audio_link fl (audio_ref r)) (seg_samples seg) \<and>
            sequenceNumber track' = sequenceNumber track + 1)"
proof (cases "audioMeta r")
  case None
  then show ?thesis using assms by (simp add: remuxAudio_def)
next
  case (Some meta)
  show ?thesis
  proof (cases "length (samples track) = 0 \<or> (length (samples track) = 1 \<and> \<not> force)")
    case True
    then have "remuxAudio fl g r track force = Inr (r, track)"
      using Some by (auto simp add: remuxAudio_def)
    then show ?thesis using assms by simp
  next
    case False
    obtain smp popped payloadBytes where
      b: "take_batch a_length (samples track) (tr_length track) (audioStashedLastSample r)
            = (smp, popped, payloadBytes)"
      by (cases "take_batch a_length (samples track) (tr_length track) (audioStashedLastSample r)") auto
    define r0 where "r0 = r\<lparr>audioStashedLastSample := popped\<rparr>"
    define raw where "raw = (am_codec meta = Some ''mp3'' \<and> mp3UseMpegAudio r)"
    define fsas where "fsas = (dtsBaseInited r \<and> audioNextDts r = None)"
    define bytes where "bytes = (if raw then payloadBytes else 8 + payloadBytes)"
    note e = remuxAudio_stages [OF Some False b r0_def raw_def fsas_def bytes_def, of fl g]
    from assms e obtain base where base: "dtsBase r0 = Some base"
      by (cases "dtsBase r0") auto
    from assms e base obtain corr where
      corr: "dtsCorrection_of (audioNextDts r0) (audioSegmentInfoList r0) (a_dts (hd smp) - base) = Inr corr"
      by (cases "dtsCorrection_of (audioNextDts r0) (audioSegmentInfoList r0) (a_dts (hd smp) - base)") auto
    from assms e base corr obtain prefix where
      prefix: "prefix_silent_frame g r0 meta (a_dts (hd smp) - base) corr = Inr prefix"
      by (cases "prefix_silent_frame g r0 meta (a_dts (hd smp) - base) corr") auto
    define st0 where "st0 = \<lparr>al_mp4Samples = [], al_firstDts = - 1,
       al_mdatBytes = (case prefix of None \<Rightarrow> bytes | Some s \<Rightarrow> bytes + int (length (a_unit s)))\<rparr>"
    from assms e base corr prefix obtain st where
      st: "audio_loop fl g r0 meta base corr popped (case prefix of None \<Rightarrow> smp | Some s \<Rightarrow> s # smp) st0
             = Inr st"
      by (cases "audio_loop fl g r0 meta base corr popped
                   (case prefix of None \<Rightarrow> smp | Some s \<Rightarrow> s # smp) st0")
         (auto simp add: st0_def)
    have f: "audio_finish r0 track raw fsas st = Inr (r', track')"
      using assms e base corr prefix st by (simp add: st0_def)
    have c: "linked (audio_link fl (am_refSampleDuration meta)) (al_mp4Samples st)"
      by (rule audio_loop_linked [OF st]) (simp_all add: st0_def)
    have a: "audio_ref r = am_refSampleDuration meta" using Some by (simp add: audio_ref_def)
    show ?thesis
      using audio_finish_result [OF f] c a by (auto simp add: r0_def)
  qed
qed

lemma remuxVideo_emits:
  assumes "remuxVideo r track force = Inr (r', track')"
  shows "\<exists>new. segments r' = segments r @ new \<and> list_all emitted_chained new"
proof -
  from remuxVideo_result [OF assms]
  consider "r' = r" | seg where "segments r' = segments r @ [VideoSegment seg]"
    "chained mv_dts mv_duration (seg_samples seg)"
    by blast
  then show ?thesis
  proof cases
    case 1
    then have "segments r' = segments r @ [] \<and> list_all emitted_chained []" by simp
    then show ?thesis by blast
  next
    case 2
    then have "segments r' = segments r @ [VideoSegment seg] \<and>
      list_all emitted_chained [VideoSegment seg]" by simp
    then show ?thesis by blast
  qed
qed

lemma remuxAudio_emits:
  assumes "remuxAudio fl g r track force = Inr (r', track')"
  shows "\<exists>new. segments r' = segments r @ new \<and> list_all (emitted_linked fl (audio_ref r)) new"
proof -
  from remuxAudio_result [OF assms]
  consider "r' = r" | seg where "segments r' = segments r @ [AudioSegment seg]"
    "linked (audio_link fl (audio_ref r)) (seg_samples seg)"
    by blast
  then show ?thesis
  proof cases
    case 1
    then have "segments r' = segments r @ [] \<and> list_all (emitted_linked fl (audio_ref r)) []" by simp
    then show ?thesis by blast
  next
    case 2
    then have "segments r' = segments r @ [AudioSegment seg] \<and>
      list_all (emitted_linked fl (audio_ref r)) [AudioSegment seg]" by simp
    then show ?thesis by blast
  qed
qed

lemma emitted_linked_exact: "emitted_linked exact ref e = emitted_chained e"
  by (cases e) (simp_all add: linked_exact)

text \<open>
  C2: in every media segment emitted by \<open>_remuxVideo\<close> or \<open>_remuxAudio\<close>, the \<open>dts\<close> plus
  the \<open>duration\<close> of each sample of \<open>mp4Samples\<close> equals the \<open>dts\<close> of the next sample. For
  video this holds for all adjacent pairs. For audio it holds for all adjacent pairs in
  exact arithmetic, also for those that involve inserted silent frames; under any
  rounding, and so in double precision, it holds for all adjacent pairs except possibly
  the pair of a sample with a gap and the first silent frame inserted after it, where the
  sample lasts \<open>Math.round(refSampleDuration)\<close> and the frame begins at the rounded value
  of \<open>dts + refSampleDuration\<close>.
\<close>

theorem adjacent_samples_chained:
  "(remuxVideo r videoTrack force = Inr (r', videoTrack') \<longrightarrow>
      list_all emitted_chained (drop (length (segments r)) (segments r'))) \<and>
   (remuxAudio exact getSilentFrame r audioTrack force = Inr (r'', audioTrack') \<longrightarrow>
      list_all emitted_chained (drop (length (segments r)) (segments r''))) \<and>
   (remuxAudio fl getSilentFrame r audioTrack force = Inr (r''', audioTrack'') \<longrightarrow>
      list_all (emitted_linked fl (audio_ref r)) (drop (length (segments r)) (segments r''')))"
proof (intro conjI impI)
  assume "remuxVideo r videoTrack force = Inr (r', videoTrack')"
  then obtain new where "segments r' = segments r @ new" "list_all emitted_chained new"
    using remuxVideo_emits by blast
  then show "list_all emitted_chained (drop (length (segments r)) (segments r'))" by simp
next
  assume "remuxAudio exact getSilentFrame r audioTrack force = Inr (r'', audioTrack')"
  then obtain new where "segments r'' = segments r @ new"
    "list_all (emitted_linked exact (audio_ref r)) new"
    using remuxAudio_emits by blast
  moreover have "emitted_linked exact (audio_ref r) = emitted_chained"
    by (intro ext) (rule emitted_linked_exact)
  ultimately show "list_all emitted_chained (drop (length (segments r)) (segments r''))"
    by simp
next
  assume "remuxAudio fl getSilentFrame r audioTrack force = Inr (r''', audioTrack'')"
  then obtain new where "segments r''' = segments r @ new"
    "list_all (emitted_linked fl (audio_ref r)) new"
    using remuxAudio_emits by blast
  then show "list_all (emitted_linked fl (audio_ref r)) (drop (length (segments r)) (segments r'''))"
    by simp
qed

theorem adjacent_samples_chained_witness:
  "remuxVideo ex_ready ex_videoTrack False = Inr (projr ex_video_result) \<and>
   remuxAudio exact one_silent_frame ex_ready ex_audioTrack False = Inr (projr ex_audio_exact) \<and>
   remuxAudio to_double one_silent_frame ex_ready ex_audioTrack False = Inr (projr ex_audio_result) \<and>
   map timeline (segments (fst (projr ex_video_result))) = [[(0, 40), (40, 40)]] \<and>
   map timeline (segments (fst (projr ex_audio_exact)))
     = [[(0, 23), (23, 23), (46, 23), (69, 23), (92, 8), (100, 23)]] \<and>
   map timeline (segments (fst (projr ex_audio_result)))
     = [[(0, 23), (23, 23), (46, 23), (69, 23), (92, 8), (100, 23)]] \<and>
   list_all emitted_chained (drop (length (segments ex_ready)) (segments (fst (projr ex_video_result)))) \<and>
   list_all emitted_chained (drop (length (segments ex_ready)) (segments (fst (projr ex_audio_exact)))) \<and>
   list_all (emitted_linked to_double (audio_ref ex_ready))
     (drop (length (segments ex_ready)) (segments (fst (projr ex_audio_result))))"
proof -
  have "\<not> isl ex_video_result" by code_simp
  then have v: "remuxVideo ex_ready ex_videoTrack False
      = Inr (fst (projr ex_video_result), snd (projr ex_video_result))"
    by (cases ex_video_result) (simp_all add: ex_video_result_def)
  have "\<not> isl ex_audio_exact" by code_simp
  then have x: "remuxAudio exact one_silent_frame ex_ready ex_audioTrack False
      = Inr (fst (projr ex_audio_exact), snd (projr ex_audio_exact))"
    by (cases ex_audio_exact) (simp_all add: ex_audio_exact_def)
  have "\<not> isl ex_audio_result" by code_simp
  then have a: "remuxAudio to_double one_silent_frame ex_ready ex_audioTrack False
      = Inr (fst (projr ex_audio_result), snd (projr ex_audio_result))"
    by (cases ex_audio_result) (simp_all add: ex_audio_result_def)
  have tv: "map timeline (segments (fst (projr ex_video_result))) = [[(0, 40), (40, 40)]]"
    by code_simp
  have tx: "map timeline (segments (fst (projr ex_audio_exact)))
     = [[(0, 23), (23, 23), (46, 23), (69, 23), (92, 8), (100, 23)]]"
    by code_simp
  have ta: "map timeline (segments (fst (projr ex_audio_result)))
     = [[(0, 23), (23, 23), (46, 23), (69, 23), (92, 8), (100, 23)]]"
    by code_simp
  show ?thesis
    using adjacent_samples_chained [of ex_ready ex_videoTrack False "fst (projr ex_video_result)"
        "snd (projr ex_video_result)" one_silent_frame ex_audioTrack "fst (projr ex_audio_exact)"
        "snd (projr ex_audio_exact)" to_double "fst (projr ex_audio_result)"
        "snd (projr ex_audio_result)"] v x a tv tx ta
    by simp
qed




text \<open>
  At 48 kHz the rounding decides the count: a sample of 64 ms is followed by 3 silent
  frames and one of 192 ms by 8, where the exact quotients for \<open>64 / 3\<close> would give 2 and 8
  and those for the stored double 3 and 9.
\<close>

lemma frame_rounds_48kHz:
  "to_double (1024 / 48000) = Some (6148914691236517 / 288230376151711744) \<and>
   to_double (6148914691236517 / 288230376151711744 * 1000) = Some ref_48kHz \<and>
   frame_rounds to_double ref_48kHz 64 = Some 3 \<and>
   frame_rounds to_double ref_48kHz 192 = Some 8 \<and>
   frame_rounds exact (64 / 3) 64 = Some 2 \<and>
   frame_rounds exact (64 / 3) 192 = Some 8 \<and>
   frame_rounds exact ref_48kHz 64 = Some 3 \<and>
   frame_rounds exact ref_48kHz 192 = Some 9"
  by code_simp
section \<open>Proofs: DTS correction and sequence numbers\<close>

lemma dtsCorrection_of_nextDts:
  "n \<noteq> 0 \<Longrightarrow> dtsCorrection_of (Some n) list firstSampleOriginalDts = Inr (firstSampleOriginalDts - n)"
  by (simp add: dtsCorrection_of_def js_truthy_def)

lemma video_loop_hd:
  assumes "video_loop base corr ref popped smp st = Inr st'" "vl_mp4Samples st \<noteq> []"
  shows "hd (vl_mp4Samples st') = hd (vl_mp4Samples st)"
  using assms
proof (induction smp arbitrary: st)
  case Nil
  then show ?case by simp
next
  case (Cons s rest)
  from Cons.prems(1) obtain st1 where
    s1: "video_step base corr ref popped s rest st = Inr st1"
    and l1: "video_loop base corr ref popped rest st1 = Inr st'"
    by (cases "video_step base corr ref popped s rest st") simp_all
  obtain x where x: "vl_mp4Samples st1 = vl_mp4Samples st @ [x]"
    using video_step_result [OF s1] by blast
  then have "vl_mp4Samples st1 \<noteq> []" "hd (vl_mp4Samples st1) = hd (vl_mp4Samples st)"
    using Cons.prems(2) by simp_all
  then show ?case using Cons.IH [OF l1] by simp
qed

lemma video_loop_first:
  assumes "video_loop base corr ref popped smp st = Inr st'" "vl_mp4Samples st = []" "smp \<noteq> []"
  shows "vl_mp4Samples st' \<noteq> []"
    and "mv_dts (hd (vl_mp4Samples st')) = v_dts (hd smp) - base - corr"
proof -
  obtain s rest where smp: "smp = s # rest" using assms(3) by (cases smp) simp_all
  from assms(1) smp obtain st1 where
    s1: "video_step base corr ref popped s rest st = Inr st1"
    and l1: "video_loop base corr ref popped rest st1 = Inr st'"
    by (cases "video_step base corr ref popped s rest st") simp_all
  obtain x where x: "vl_mp4Samples st1 = vl_mp4Samples st @ [x]" "mv_dts x = v_dts s - base - corr"
    using video_step_result [OF s1] by blast
  then have n: "vl_mp4Samples st1 \<noteq> []" by simp
  have h: "hd (vl_mp4Samples st') = hd (vl_mp4Samples st1)" using l1 n by (rule video_loop_hd)
  have "length (vl_mp4Samples st') \<ge> length (vl_mp4Samples st1)"
    using l1
  proof (induction rest arbitrary: st1)
    case Nil
    then show ?case by simp
  next
    case (Cons a as)
    from Cons.prems obtain st2 where
      s2: "video_step base corr ref popped a as st1 = Inr st2"
      and l2: "video_loop base corr ref popped as st2 = Inr st'"
      by (cases "video_step base corr ref popped a as st1") simp_all
    obtain y where "vl_mp4Samples st2 = vl_mp4Samples st1 @ [y]"
      using video_step_result [OF s2] by blast
    then show ?case using Cons.IH [OF l2] by simp
  qed
  then show "vl_mp4Samples st' \<noteq> []" using n by auto
  show "mv_dts (hd (vl_mp4Samples st')) = v_dts (hd smp) - base - corr"
    using h x assms(2) smp by simp
qed

lemma take_batch_nonempty:
  assumes "take_batch len smp n stashed = (smp', popped, bytes)" "smp \<noteq> []"
  shows "smp' \<noteq> []"
proof -
  have "butlast smp \<noteq> []" if "length smp > 1"
    using that by (cases smp) (auto simp add: neq_Nil_conv)
  then show ?thesis
    using assms by (auto simp add: take_batch_def Let_def split: option.splits if_splits)
qed

lemma video_finish_first:
  assumes "video_finish r track mdatBytes st = Inr (r', track')" "vl_mp4Samples st \<noteq> []"
  shows "\<exists>seg. segments r' = segments r @ [VideoSegment seg] \<and>
           mv_dts (hd (seg_samples seg)) = mv_dts (hd (vl_mp4Samples st))"
proof -
  have m: "mv_dts (hd (map (\<lambda>s. s\<lparr>mv_units := []\<rparr>) xs)) = mv_dts (hd xs)" if "xs \<noteq> []" for xs
    using that by (cases xs) simp_all
  have f: "mv_dts (hd (force_first_idr xs)) = mv_dts (hd xs)" if "xs \<noteq> []" for xs
    using that by (cases xs) (simp_all add: force_first_idr_def)
  show ?thesis
    using assms
    by (auto simp add: video_finish_def Let_def m f split: sum.splits if_splits)
qed

text \<open>
  With a \<open>_videoNextDts\<close> that is neither \<open>undefined\<close> nor \<open>0\<close>, the segment that
  \<open>_remuxVideo\<close> emits begins at \<open>_videoNextDts\<close>.
\<close>

lemma remuxVideo_begins_at_nextDts:
  assumes "remuxVideo r track force = Inr (r', track')" "videoNextDts r = Some n" "n \<noteq> 0"
      and "r' \<noteq> r"
  shows "\<exists>seg. segments r' = segments r @ [VideoSegment seg] \<and> mv_dts (hd (seg_samples seg)) = n"
proof (cases "videoMeta r")
  case None
  then show ?thesis using assms by (simp add: remuxVideo_def)
next
  case (Some meta)
  show ?thesis
  proof (cases "length (samples track) = 0 \<or> (length (samples track) = 1 \<and> \<not> force)")
    case True
    then have "remuxVideo r track force = Inr (r, track)"
      using Some by (auto simp add: remuxVideo_def)
    then show ?thesis using assms by simp
  next
    case False
    obtain smp popped payloadBytes where
      b: "take_batch v_length (samples track) (tr_length track) (videoStashedLastSample r)
            = (smp, popped, payloadBytes)"
      by (cases "take_batch v_length (samples track) (tr_length track) (videoStashedLastSample r)") auto
    have "samples track \<noteq> []" using False by auto
    with b have ne: "smp \<noteq> []" by (rule take_batch_nonempty)
    define r0 where "r0 = r\<lparr>videoStashedLastSample := popped\<rparr>"
    from assms(1) Some False b obtain base where base: "dtsBase r = Some base"
      by (cases "dtsBase r") (auto simp add: remuxVideo_def Let_def)
    have corr: "dtsCorrection_of (videoNextDts r) (videoSegmentInfoList r) (v_dts (hd smp) - base)
        = Inr (v_dts (hd smp) - base - n)"
      using assms(2,3) by (simp add: dtsCorrection_of_nextDts)
    from assms(1) Some False b base corr obtain st where
      st: "video_loop base (v_dts (hd smp) - base - n) (vm_refSampleDuration meta) popped smp
             \<lparr>vl_mp4Samples = [], vl_info = new_MediaSegmentInfo, vl_firstDts = - 1,
              vl_firstPts = - 1\<rparr> = Inr st"
      by (cases "video_loop base (v_dts (hd smp) - base - n) (vm_refSampleDuration meta) popped smp
             \<lparr>vl_mp4Samples = [], vl_info = new_MediaSegmentInfo, vl_firstDts = - 1,
              vl_firstPts = - 1\<rparr>")
        (auto simp add: remuxVideo_def Let_def)
    have f: "video_finish r0 track (8 + payloadBytes) st = Inr (r', track')"
      using assms(1) Some False b base corr st by (auto simp add: remuxVideo_def Let_def r0_def)
    have h: "vl_mp4Samples st \<noteq> []" "mv_dts (hd (vl_mp4Samples st)) = v_dts (hd smp) - base - (v_dts (hd smp) - base - n)"
      using video_loop_first [OF st _ ne] by simp_all
    show ?thesis
      using video_finish_first [OF f h(1)] h(2) by (auto simp add: r0_def)
  qed
qed

lemma audio_loop_hd:
  assumes "audio_loop fl g r meta base corr popped smp st = Inr st'" "al_mp4Samples st \<noteq> []"
  shows "hd (al_mp4Samples st') = hd (al_mp4Samples st)"
  using assms
proof (induction smp arbitrary: st)
  case Nil
  then show ?case by simp
next
  case (Cons s rest)
  from Cons.prems(1) obtain st1 where
    s1: "audio_step fl g r meta base corr popped s rest st = Inr st1"
    and l1: "audio_loop fl g r meta base corr popped rest st1 = Inr st'"
    by (cases "audio_step fl g r meta base corr popped s rest st") simp_all
  obtain xs where x: "al_mp4Samples st1 = al_mp4Samples st @ xs"
    using audio_step_result [OF s1] by blast
  then have "al_mp4Samples st1 \<noteq> []" "hd (al_mp4Samples st1) = hd (al_mp4Samples st)"
    using Cons.prems(2) by simp_all
  then show ?case using Cons.IH [OF l1] by simp
qed

lemma audio_loop_grows:
  assumes "audio_loop fl g r meta base corr popped smp st = Inr st'"
  shows "length (al_mp4Samples st) \<le> length (al_mp4Samples st')"
  using assms
proof (induction smp arbitrary: st)
  case Nil
  then show ?case by simp
next
  case (Cons s rest)
  from Cons.prems(1) obtain st1 where
    s1: "audio_step fl g r meta base corr popped s rest st = Inr st1"
    and l1: "audio_loop fl g r meta base corr popped rest st1 = Inr st'"
    by (cases "audio_step fl g r meta base corr popped s rest st") simp_all
  obtain xs where "al_mp4Samples st1 = al_mp4Samples st @ xs"
    using audio_step_result [OF s1] by blast
  then show ?case using Cons.IH [OF l1] by simp
qed

lemma audio_loop_first:
  assumes "audio_loop fl g r meta base corr popped smp st = Inr st'" "al_mp4Samples st = []" "smp \<noteq> []"
  shows "al_mp4Samples st' \<noteq> []"
    and "ma_dts (hd (al_mp4Samples st')) = a_dts (hd smp) - base - corr"
proof -
  obtain s rest where smp: "smp = s # rest" using assms(3) by (cases smp) simp_all
  from assms(1) smp obtain st1 where
    s1: "audio_step fl g r meta base corr popped s rest st = Inr st1"
    and l1: "audio_loop fl g r meta base corr popped rest st1 = Inr st'"
    by (cases "audio_step fl g r meta base corr popped s rest st") simp_all
  obtain xs where x: "al_mp4Samples st1 = al_mp4Samples st @ xs" "xs \<noteq> []"
    "ma_dts (hd xs) = a_dts s - base - corr"
    using audio_step_result [OF s1] by blast
  then have n: "al_mp4Samples st1 \<noteq> []" by simp
  have h: "hd (al_mp4Samples st') = hd (al_mp4Samples st1)" using l1 n by (rule audio_loop_hd)
  show "al_mp4Samples st' \<noteq> []" using audio_loop_grows [OF l1] n by auto
  show "ma_dts (hd (al_mp4Samples st')) = a_dts (hd smp) - base - corr"
    using h x assms(2) smp by simp
qed

lemma prefix_silent_frame_nextDts:
  "js_truthy (audioNextDts r) \<Longrightarrow> prefix_silent_frame g r meta first corr = Inr None"
  by (simp add: prefix_silent_frame_def insertPrefixSilentFrame_def)

text \<open>The same for \<open>_remuxAudio\<close> and \<open>_audioNextDts\<close>.\<close>

lemma remuxAudio_begins_at_nextDts:
  assumes "remuxAudio fl g r track force = Inr (r', track')" "audioNextDts r = Some n" "n \<noteq> 0"
      and "r' \<noteq> r"
  shows "\<exists>seg. segments r' = segments r @ [AudioSegment seg] \<and> ma_dts (hd (seg_samples seg)) = n"
proof (cases "audioMeta r")
  case None
  then show ?thesis using assms by (simp add: remuxAudio_def)
next
  case (Some meta)
  show ?thesis
  proof (cases "length (samples track) = 0 \<or> (length (samples track) = 1 \<and> \<not> force)")
    case True
    then have "remuxAudio fl g r track force = Inr (r, track)"
      using Some by (auto simp add: remuxAudio_def)
    then show ?thesis using assms by simp
  next
    case False
    obtain smp popped payloadBytes where
      b: "take_batch a_length (samples track) (tr_length track) (audioStashedLastSample r)
            = (smp, popped, payloadBytes)"
      by (cases "take_batch a_length (samples track) (tr_length track) (audioStashedLastSample r)") auto
    have "samples track \<noteq> []" using False by auto
    with b have ne: "smp \<noteq> []" by (rule take_batch_nonempty)
    define r0 where "r0 = r\<lparr>audioStashedLastSample := popped\<rparr>"
    define raw where "raw = (am_codec meta = Some ''mp3'' \<and> mp3UseMpegAudio r)"
    define fsas where "fsas = (dtsBaseInited r \<and> audioNextDts r = None)"
    define bytes where "bytes = (if raw then payloadBytes else 8 + payloadBytes)"
    note e = remuxAudio_stages [OF Some False b r0_def raw_def fsas_def bytes_def, of fl g]
    have nd: "audioNextDts r0 = Some n" using assms(2) by (simp add: r0_def)
    from assms(1) e obtain base where base: "dtsBase r0 = Some base"
      by (cases "dtsBase r0") auto
    have corr: "dtsCorrection_of (audioNextDts r0) (audioSegmentInfoList r0) (a_dts (hd smp) - base)
        = Inr (a_dts (hd smp) - base - n)"
      using nd assms(3) by (simp add: dtsCorrection_of_nextDts)
    have prefix: "prefix_silent_frame g r0 meta (a_dts (hd smp) - base) (a_dts (hd smp) - base - n)
        = Inr None"
      using nd assms(3) by (simp add: prefix_silent_frame_nextDts js_truthy_def)
    from assms(1) e base corr prefix obtain st where
      st: "audio_loop fl g r0 meta base (a_dts (hd smp) - base - n) popped smp
             \<lparr>al_mp4Samples = [], al_firstDts = - 1, al_mdatBytes = bytes\<rparr> = Inr st"
      by (cases "audio_loop fl g r0 meta base (a_dts (hd smp) - base - n) popped smp
             \<lparr>al_mp4Samples = [], al_firstDts = - 1, al_mdatBytes = bytes\<rparr>") auto
    have f: "audio_finish r0 track raw fsas st = Inr (r', track')"
      using assms(1) e base corr prefix st by simp
    have h: "ma_dts (hd (al_mp4Samples st)) = a_dts (hd smp) - base - (a_dts (hd smp) - base - n)"
      using audio_loop_first(2) [OF st _ ne] by simp
    show ?thesis
      using audio_finish_result [OF f] h by (auto simp add: r0_def)
  qed
qed

text \<open>
  C1: with a defined \<open>nextDts\<close> the correction should be \<open>firstSampleOriginalDts - nextDts\<close>
  and the segment should begin at \<open>nextDts\<close>, also for \<open>nextDts = 0\<close>. The code tests
  \<open>nextDts\<close> for truthiness, so at \<open>nextDts = 0\<close> it takes the branch for \<open>undefined\<close>: in the
  session below the first segment ends at 0, and after the seek the batch whose first
  sample has \<open>originalDts\<close> 5000 gets the correction 0 and begins at 5000.
\<close>

theorem dtsCorrection_skipped_at_nextDts_zero:
  "map_sum id (videoNextDts \<circ> pl_remuxer)
     (run_session to_double no_silent_frame (new_Pipeline ex_remuxer) (take 2 ex_seek_session)) = Inr (Some 0) \<and>
   dtsCorrection_of (Some 0) (new_MediaSegmentInfoList ''video'') 5000 = Inr 0 \<and>
   map_sum id (map first_sample \<circ> segments \<circ> pl_remuxer)
     (run_session to_double no_silent_frame (new_Pipeline ex_remuxer) ex_seek_session)
     = Inr [(0, 0), (5000, 5000)]"
  by code_simp

text \<open>
  C8: the sequence numbers of the segments of a track should increase strictly, also
  for the segments of \<open>flushStashedSamples\<close>. That method remuxes from a fresh track
  object with \<open>sequenceNumber: 0\<close>: after two batches, which carry 1 and 2, the flushed
  segment carries 1 again.
\<close>

theorem flushStashedSamples_restarts_sequenceNumber:
  "map_sum id (moof_sequenceNumbers \<circ> video_segments \<circ> segments \<circ> pl_remuxer)
     (run_session to_double no_silent_frame (new_Pipeline ex_remuxer) ex_flush_session) = Inr [1, 2, 1]"
  by code_simp

end
